theory Spec2Isabelle
  imports
    Main
    "HOL-Library.Char_ord"
    "HOL-Library.List_Lexorder"
    "HOL-Library.Product_Lexorder"
    "HOL-Library.Multiset"
begin

section \<open>Strings and paths\<close>

text \<open>
  Go strings are byte sequences; they are modelled as \<open>string\<close> (a list of 8-bit
  characters).  \<open>strings.ToLower\<close> takes one of two paths.  A string whose bytes are
  all below 0x80 is lowered byte by byte: the 26 ASCII capital letters are mapped to
  their small counterparts and every other byte is left as it is.  Any other string is
  mapped rune by rune with \<open>unicode.ToLower\<close>, a byte that is not valid UTF-8
  becoming U+FFFD, so that the result need not have the length of the string; that
  mapping rests on the Unicode tables of the Go library, which are not part of the
  repository.  It is the parameter \<open>U\<close> of the model, of which nothing is assumed.
\<close>

type_synonym lowering = "string \<Rightarrow> string"

definition isASCII :: "string \<Rightarrow> bool" where
  "isASCII s = list_all (\<lambda>c. \<not> digit7 c) s"

definition toLower_char :: "char \<Rightarrow> char" where
  "toLower_char c =
     (case map_of (zip ''ABCDEFGHIJKLMNOPQRSTUVWXYZ'' ''abcdefghijklmnopqrstuvwxyz'') c of
        Some l \<Rightarrow> l
      | None \<Rightarrow> c)"

definition ToLower :: "lowering \<Rightarrow> string \<Rightarrow> string" where
  "ToLower U s = (if isASCII s then map toLower_char s else U s)"

definition HasSuffix :: "string \<Rightarrow> string \<Rightarrow> bool" where
  "HasSuffix s suffix =
     (length suffix \<le> length s \<and> drop (length s - length suffix) s = suffix)"

definition TrimSuffix :: "string \<Rightarrow> string \<Rightarrow> string" where
  "TrimSuffix s suffix =
     (if HasSuffix s suffix then take (length s - length suffix) s else s)"

definition HasPrefix :: "string \<Rightarrow> string \<Rightarrow> bool" where
  "HasPrefix s pre = (take (length pre) s = pre)"

fun Contains :: "string \<Rightarrow> string \<Rightarrow> bool" where
  "Contains [] substr = (substr = [])"
| "Contains (c # cs) substr = (HasPrefix (c # cs) substr \<or> Contains cs substr)"

text \<open>
  \<open>filepath.Base\<close> on a slash-separated path: the empty path gives a dot, trailing
  slashes are dropped, the part after the last remaining slash is returned, and a path
  of slashes only gives a single slash.
\<close>

definition Base :: "string \<Rightarrow> string" where
  "Base path =
     (if path = [] then ''.''
      else
        let stripped = rev (dropWhile (\<lambda>c. c = CHR ''/'') (rev path));
            elem = rev (takeWhile (\<lambda>c. c \<noteq> CHR ''/'') (rev stripped))
        in if elem = [] then ''/'' else elem)"

section \<open>Identity: the composite key (package scheduler)\<close>

text \<open>
  The environment name is a \<open>*string\<close> in the source: \<open>None\<close> is the nil pointer.
  The function returns the key and the three normalised components.
\<close>

definition GenerateCompositeKey ::
  "lowering \<Rightarrow> string \<Rightarrow> string option \<Rightarrow> string \<Rightarrow> string \<times> string \<times> string \<times> string" where
  "GenerateCompositeKey U directoryName environmentName collectionFileName =
     (let collectionName = TrimSuffix collectionFileName ''.postman_collection.json'';
          envName = (case environmentName of
                       None \<Rightarrow> ''env''
                     | Some e \<Rightarrow> if e \<noteq> [] then e else ''env'');
          dir = ToLower U directoryName;
          env = ToLower U envName;
          col = ToLower U collectionName;
          key = dir @ ''_'' @ env @ ''_'' @ col
      in (key, dir, env, col))"

section \<open>Errors\<close>

datatype error =
    DirectoryNotExist
  | ReadDirectoryFailed
  | ReadSubdirectoryFailed
  | ReadFileFailed
  | ParseJSONFailed
  | ResolvePathFailed
  | ParseNewmanOutputFailed
  | NewmanExecutionFailed string
  | UpsertCollectionFailed
  | CreateTestExecutionFailed
  | CreateTestResultFailed
  | NilPointerDereference
  | MethodNotAllowed

section \<open>Discovery (package watcher)\<close>

record CollectionFile =
  cf_Name :: string
  cf_Path :: string
  cf_FullPath :: string

record EnvironmentFile =
  ef_Name :: string
  ef_FileName :: string
  ef_Path :: string
  ef_FullPath :: string

text \<open>
  A group refers to its environment through a pointer.  Pointers are addresses into a
  heap of environment files (a list; the address is the index), \<open>None\<close> is nil.
\<close>

record CollectionGroup =
  g_Directory :: string
  g_Environment :: "nat option"
  g_Collections :: "CollectionFile list"

type_synonym env_heap = "EnvironmentFile list"

definition groupEnv :: "env_heap \<Rightarrow> CollectionGroup \<Rightarrow> EnvironmentFile option" where
  "groupEnv h g =
     (case g_Environment g of
        None \<Rightarrow> None
      | Some a \<Rightarrow> if a < length h then Some (h ! a) else None)"

text \<open>
  The file system as the scanner reads it.  For a file of a subdirectory: its name,
  whether it is a directory, the results of \<open>filepath.Abs\<close> and \<open>filepath.Rel\<close> on its
  path (\<open>None\<close> when they fail), and what reading and decoding it as an environment
  file yields (the value of the name field, empty when the field is absent).
\<close>

datatype env_content = ReadFailed | JsonInvalid | JsonName string

record DirEntry =
  de_Name :: string
  de_IsDir :: bool
  de_Abs :: "string option"
  de_Rel :: "string option"
  de_Content :: env_content

record RootEntry =
  re_Name :: string
  re_IsDir :: bool
  re_Entries :: "DirEntry list option"

datatype root_dir = RootMissing | RootUnreadable | RootListing "RootEntry list"

definition parseEnvironmentFile ::
  "string \<Rightarrow> string \<Rightarrow> string \<Rightarrow> env_content \<Rightarrow> error + EnvironmentFile" where
  "parseEnvironmentFile fullPath filename relPath content =
     (case content of
        ReadFailed \<Rightarrow> Inl ReadFileFailed
      | JsonInvalid \<Rightarrow> Inl ParseJSONFailed
      | JsonName name \<Rightarrow>
          Inr \<lparr> ef_Name = (if name = []
                            then TrimSuffix filename ''.postman_environment.json''
                            else name),
                ef_FileName = filename,
                ef_Path = relPath,
                ef_FullPath = fullPath \<rparr>)"

text \<open>One iteration of the loop over the entries of a subdirectory.\<close>

definition scanEntry ::
  "lowering \<Rightarrow> DirEntry \<Rightarrow> EnvironmentFile list \<times> CollectionFile list
     \<Rightarrow> EnvironmentFile list \<times> CollectionFile list" where
  "scanEntry U entry acc =
     (case acc of (environmentFiles, collectionFiles) \<Rightarrow>
        if de_IsDir entry then acc
        else if \<not> HasSuffix (ToLower U (de_Name entry)) ''.json'' then acc
        else
          (case de_Abs entry of
             None \<Rightarrow> acc
           | Some absPath \<Rightarrow>
               let relPath = (case de_Rel entry of None \<Rightarrow> de_Name entry | Some r \<Rightarrow> r)
               in if Contains (ToLower U (de_Name entry)) ''.postman_environment.json''
                  then (case parseEnvironmentFile absPath (de_Name entry) relPath
                               (de_Content entry) of
                          Inl err \<Rightarrow> acc
                        | Inr envFile \<Rightarrow> (environmentFiles @ [envFile], collectionFiles))
                  else (environmentFiles,
                        collectionFiles @
                          [\<lparr> cf_Name = de_Name entry, cf_Path = relPath,
                             cf_FullPath = absPath \<rparr>])))"

text \<open>
  The loop \<open>for _, envFile := range environmentFiles\<close> stores \<open>&envFile\<close> in each
  group.  What that pointer refers to depends on the language version the module is
  compiled with: before Go 1.22 a range loop has one variable for all its iterations,
  from Go 1.22 on each iteration has its own.  The repository's build file is not part
  of the sources; its documentation asks for Go 1.21 or later.  The semantics is
  therefore a parameter of the model.
\<close>

datatype loopvar = PerLoop | PerIteration

definition envGroupStep ::
  "loopvar \<Rightarrow> nat \<Rightarrow> string \<Rightarrow> CollectionFile list \<Rightarrow> EnvironmentFile
     \<Rightarrow> env_heap \<times> CollectionGroup list \<Rightarrow> env_heap \<times> CollectionGroup list" where
  "envGroupStep lv cell subdirName collectionFiles envFile st =
     (case st of (h, groups) \<Rightarrow>
        (case lv of
           PerLoop \<Rightarrow>
             (h[cell := envFile],
              groups @ [\<lparr> g_Directory = subdirName, g_Environment = Some cell,
                          g_Collections = collectionFiles \<rparr>])
         | PerIteration \<Rightarrow>
             (h @ [envFile],
              groups @ [\<lparr> g_Directory = subdirName, g_Environment = Some (length h),
                          g_Collections = collectionFiles \<rparr>])))"

definition zeroEnvironmentFile :: EnvironmentFile where
  "zeroEnvironmentFile =
     \<lparr> ef_Name = [], ef_FileName = [], ef_Path = [], ef_FullPath = [] \<rparr>"

definition makeGroups ::
  "loopvar \<Rightarrow> env_heap \<Rightarrow> string \<Rightarrow> EnvironmentFile list \<Rightarrow> CollectionFile list
     \<Rightarrow> env_heap \<times> CollectionGroup list" where
  "makeGroups lv h subdirName environmentFiles collectionFiles =
     (if 0 < length environmentFiles
      then
        (case lv of
           PerLoop \<Rightarrow>
             fold (envGroupStep lv (length h) subdirName collectionFiles) environmentFiles
               (h @ [zeroEnvironmentFile], [])
         | PerIteration \<Rightarrow>
             fold (envGroupStep lv 0 subdirName collectionFiles) environmentFiles (h, []))
      else if 0 < length collectionFiles
      then (h, [\<lparr> g_Directory = subdirName, g_Environment = None,
                   g_Collections = collectionFiles \<rparr>])
      else (h, []))"

definition scanSubdirectory ::
  "lowering \<Rightarrow> loopvar \<Rightarrow> env_heap \<Rightarrow> DirEntry list option \<Rightarrow> string
     \<Rightarrow> error + env_heap \<times> CollectionGroup list" where
  "scanSubdirectory U lv h listing subdirName =
     (case listing of
        None \<Rightarrow> Inl ReadSubdirectoryFailed
      | Some entries \<Rightarrow>
          (case fold (scanEntry U) entries ([], []) of
             (environmentFiles, collectionFiles) \<Rightarrow>
               Inr (makeGroups lv h subdirName environmentFiles collectionFiles)))"

definition scanRootEntry ::
  "lowering \<Rightarrow> loopvar \<Rightarrow> RootEntry \<Rightarrow> env_heap \<times> CollectionGroup list
     \<Rightarrow> env_heap \<times> CollectionGroup list" where
  "scanRootEntry U lv entry st =
     (case st of (h, groups) \<Rightarrow>
        if \<not> re_IsDir entry then st
        else if Contains (re_Name entry) '' '' then st
        else
          (case scanSubdirectory U lv h (re_Entries entry) (re_Name entry) of
             Inl err \<Rightarrow> st
           | Inr (h', subdirGroups) \<Rightarrow> (h', groups @ subdirGroups)))"

definition ScanGroups :: "lowering \<Rightarrow> loopvar \<Rightarrow> root_dir \<Rightarrow> error + env_heap \<times> CollectionGroup list" where
  "ScanGroups U lv root =
     (case root of
        RootMissing \<Rightarrow> Inl DirectoryNotExist
      | RootUnreadable \<Rightarrow> Inl ReadDirectoryFailed
      | RootListing entries \<Rightarrow> Inr (fold (scanRootEntry U lv) entries ([], [])))"

section \<open>The key at dispatch time and at read time\<close>

text \<open>
  \<open>runOnce\<close> passes to each execution unit the collection file, the environment's
  full path, the directory and the environment name taken from the environment's file
  name; \<open>executeCollection\<close> computes the key from these.  The results handler
  computes the key of the same group and file from the environment's resolved name.
\<close>

definition dispatchArgs ::
  "env_heap \<Rightarrow> CollectionGroup \<Rightarrow> CollectionFile
     \<Rightarrow> CollectionFile \<times> string option \<times> string \<times> string option" where
  "dispatchArgs h grp col =
     (let envPath = map_option ef_FullPath (groupEnv h grp);
          envName = map_option
                      (\<lambda>e. TrimSuffix (ef_FileName e) ''.postman_environment.json'')
                      (groupEnv h grp);
          dirName = g_Directory grp
      in (col, envPath, dirName, envName))"

definition dispatchKey ::
  "lowering \<Rightarrow> CollectionFile \<times> string option \<times> string \<times> string option
     \<Rightarrow> string \<times> string \<times> string \<times> string" where
  "dispatchKey U args =
     (case args of (col, environmentPath, directoryName, environmentName) \<Rightarrow>
        GenerateCompositeKey U directoryName environmentName (Base (cf_FullPath col)))"

definition readKey ::
  "lowering \<Rightarrow> env_heap \<Rightarrow> CollectionGroup \<Rightarrow> CollectionFile \<Rightarrow> string \<times> string \<times> string \<times> string" where
  "readKey U h grp col =
     (let envName = map_option ef_Name (groupEnv h grp)
      in GenerateCompositeKey U (g_Directory grp) envName (Base (cf_FullPath col)))"

section \<open>Persisted rows and view model (package storage)\<close>

text \<open>Timestamps are integers (nanoseconds); row ids and counts are integers.\<close>

record Collection =
  c_ID :: int
  c_Name :: string
  c_FilePath :: string
  c_CompositeKey :: string
  c_DirectoryName :: string
  c_EnvironmentName :: string
  c_CollectionName :: string
  c_CreatedAt :: int
  c_UpdatedAt :: int

record TestExecution =
  te_ID :: int
  te_CollectionID :: int
  te_CollectionName :: string
  te_StartedAt :: int
  te_CompletedAt :: int
  te_DurationMs :: int
  te_TotalTests :: int
  te_PassedTests :: int
  te_FailedTests :: int
  te_Error :: "string option"
  te_CreatedAt :: int

record TestResult =
  tr_ID :: int
  tr_ExecutionID :: int
  tr_TestName :: string
  tr_ExecutionName :: "string option"
  tr_URL :: "string option"
  tr_Method :: "string option"
  tr_Status :: string
  tr_StatusCode :: "int option"
  tr_ResponseTimeMs :: "int option"
  tr_Passed :: bool
  tr_Error :: "string option"
  tr_CreatedAt :: int

record EnvironmentInfo =
  ei_Name :: string
  ei_FileName :: string
  ei_Path :: string

text \<open>
  \<open>cr_Execution\<close> is a pointer: an address into a heap of executions, \<open>None\<close> is nil.
  The last successful execution is a pointer to a row that nothing else refers to, so
  it is kept as a value.
\<close>

record CollectionResult =
  cr_Collection :: Collection
  cr_Execution :: "nat option"
  cr_LastSuccessExecution :: "TestExecution option"
  cr_Results :: "TestResult list"

record EnvironmentGroup =
  eg_Environment :: "EnvironmentInfo option"
  eg_Directory :: string
  eg_Collections :: "CollectionResult list"

record LatestResults =
  lr_EnvironmentGroups :: "EnvironmentGroup list"
  lr_UpdatedAt :: int

type_synonym exec_heap = "TestExecution list"

text \<open>
  The store: the three tables, each a list of rows in the order in which the engine
  delivers them, and the three id sequences.
\<close>

record DB =
  collections :: "Collection list"
  test_executions :: "TestExecution list"
  test_results :: "TestResult list"
  seq_collections :: int
  seq_executions :: int
  seq_results :: int

subsection \<open>Queries\<close>

text \<open>
  \<open>ORDER BY\<close> is a stable sort of the table's rows: rows that the ordering columns do
  not separate stay in the table's order.  SQL leaves their order open, so every
  theorem below holds for every order of the table.  \<open>DISTINCT ON\<close> keeps the first
  row of each run of rows with the same key; \<open>LIMIT 1\<close> keeps the first row.
  The queries are read on a store that answers; a query that fails makes the
  operation return that error with no result.
\<close>

fun distinctOn :: "('a \<Rightarrow> 'k) \<Rightarrow> 'a list \<Rightarrow> 'a list" where
  "distinctOn f [] = []"
| "distinctOn f (x # xs) = x # distinctOn f (filter (\<lambda>y. f y \<noteq> f x) xs)"

definition GetAllCollections :: "DB \<Rightarrow> Collection list" where
  "GetAllCollections db =
     sort_key (\<lambda>c. (c_DirectoryName c, c_EnvironmentName c, c_CollectionName c))
       (collections db)"

definition latest_test_executions :: "DB \<Rightarrow> TestExecution list" where
  "latest_test_executions db =
     distinctOn te_CollectionID
       (sort_key (\<lambda>e. (te_CollectionID e, - te_StartedAt e)) (test_executions db))"

definition GetLatestExecutions :: "DB \<Rightarrow> TestExecution list" where
  "GetLatestExecutions db = sort_key te_CollectionName (latest_test_executions db)"

definition GetLastSuccessfulExecution :: "DB \<Rightarrow> int \<Rightarrow> TestExecution option" where
  "GetLastSuccessfulExecution db collectionID =
     (case sort_key (\<lambda>e. - te_StartedAt e)
             (filter (\<lambda>e. te_CollectionID e = collectionID \<and> te_FailedTests e = 0
                           \<and> 0 < te_TotalTests e)
                (test_executions db)) of
        [] \<Rightarrow> None
      | e # rest \<Rightarrow> Some e)"

definition GetTestResultsByExecutionID :: "DB \<Rightarrow> int \<Rightarrow> TestResult list" where
  "GetTestResultsByExecutionID db executionID =
     sort_key tr_TestName (filter (\<lambda>r. tr_ExecutionID r = executionID) (test_results db))"

subsection \<open>GetLatestResults\<close>

text \<open>
  The loop \<open>for _, exec := range executions\<close> stores \<open>&exec\<close> in each result, so the
  loop-variable semantics matters here as well: with one variable per loop the heap of
  this call is a single cell that every iteration overwrites.  An execution whose
  collection row is not found is skipped.
\<close>

definition collectionResultStep ::
  "loopvar \<Rightarrow> DB \<Rightarrow> Collection list \<Rightarrow> TestExecution
     \<Rightarrow> exec_heap \<times> CollectionResult list \<Rightarrow> exec_heap \<times> CollectionResult list" where
  "collectionResultStep lv db allCollections exec st =
     (case st of (h, collectionResults) \<Rightarrow>
        (case (case lv of PerLoop \<Rightarrow> (0, [exec]) | PerIteration \<Rightarrow> (length h, h @ [exec])) of
           (a, h') \<Rightarrow>
             (case find (\<lambda>col. c_ID col = te_CollectionID exec) allCollections of
                None \<Rightarrow> (h', collectionResults)
              | Some matchingCol \<Rightarrow>
                  (h', collectionResults @
                     [\<lparr> cr_Collection = matchingCol,
                        cr_Execution = Some a,
                        cr_LastSuccessExecution =
                          GetLastSuccessfulExecution db (te_CollectionID exec),
                        cr_Results = GetTestResultsByExecutionID db (te_ID exec) \<rparr>]))))"

definition buildCollectionResults :: "loopvar \<Rightarrow> DB \<Rightarrow> exec_heap \<times> CollectionResult list" where
  "buildCollectionResults lv db =
     fold (collectionResultStep lv db (GetAllCollections db)) (GetLatestExecutions db) ([], [])"

type_synonym groupKey = "string \<times> string"

definition groupKeyOf :: "CollectionResult \<Rightarrow> groupKey" where
  "groupKeyOf cr =
     (c_DirectoryName (cr_Collection cr), c_EnvironmentName (cr_Collection cr))"

definition groupStep ::
  "CollectionResult \<Rightarrow> (groupKey \<rightharpoonup> CollectionResult list)
     \<Rightarrow> (groupKey \<rightharpoonup> CollectionResult list)" where
  "groupStep cr groupMap =
     (let key = groupKeyOf cr
      in groupMap(key \<mapsto> (case groupMap key of None \<Rightarrow> [] | Some rs \<Rightarrow> rs) @ [cr]))"

definition makeEnvironmentGroup :: "groupKey \<Rightarrow> CollectionResult list \<Rightarrow> EnvironmentGroup" where
  "makeEnvironmentGroup key rs =
     (case key of (directory, envName) \<Rightarrow>
        \<lparr> eg_Environment =
            (if envName \<noteq> [] \<and> envName \<noteq> ''env''
             then Some \<lparr> ei_Name = envName,
                         ei_FileName = envName @ ''.postman_environment.json'',
                         ei_Path = [] \<rparr>
             else None),
          eg_Directory = directory,
          eg_Collections = rs \<rparr>)"

text \<open>
  \<open>for key, collections := range groupMap\<close> visits every key of the map once, in an
  order that the language leaves open.  The order of one run is the parameter
  \<open>order\<close>; it is an iteration order of the map when it lists every key once.
\<close>

definition rangeMap :: "'k list \<Rightarrow> ('k \<rightharpoonup> 'v) \<Rightarrow> ('k \<times> 'v) list" where
  "rangeMap order m =
     concat (map (\<lambda>k. case m k of None \<Rightarrow> [] | Some v \<Rightarrow> [(k, v)]) order)"

definition groupKeys :: "loopvar \<Rightarrow> DB \<Rightarrow> groupKey list" where
  "groupKeys lv db = remdups (map groupKeyOf (snd (buildCollectionResults lv db)))"

definition iterationOrder :: "groupKey list \<Rightarrow> loopvar \<Rightarrow> DB \<Rightarrow> bool" where
  "iterationOrder order lv db = (distinct order \<and> set order = set (groupKeys lv db))"

definition GetLatestResults ::
  "loopvar \<Rightarrow> groupKey list \<Rightarrow> int \<Rightarrow> DB \<Rightarrow> exec_heap \<times> LatestResults" where
  "GetLatestResults lv order now db =
     (case buildCollectionResults lv db of
        (h, collectionResults) \<Rightarrow>
          let groupMap = fold groupStep collectionResults Map.empty;
              envGroups = map (\<lambda>(key, rs). makeEnvironmentGroup key rs)
                            (rangeMap order groupMap)
          in (h, \<lparr> lr_EnvironmentGroups = envGroups, lr_UpdatedAt = now \<rparr>))"

definition execOf :: "exec_heap \<Rightarrow> CollectionResult \<Rightarrow> TestExecution option" where
  "execOf h cr =
     (case cr_Execution cr of
        None \<Rightarrow> None
      | Some a \<Rightarrow> if a < length h then Some (h ! a) else None)"

section \<open>The results handler (package api)\<close>

text \<open>The map from composite key to result; a later result replaces an earlier one.\<close>

definition indexStep ::
  "CollectionResult \<Rightarrow> (string \<rightharpoonup> CollectionResult) \<Rightarrow> (string \<rightharpoonup> CollectionResult)" where
  "indexStep cr m = m(c_CompositeKey (cr_Collection cr) \<mapsto> cr)"

definition indexResults :: "EnvironmentGroup list \<Rightarrow> (string \<rightharpoonup> CollectionResult)" where
  "indexResults envGroups =
     fold (\<lambda>envGroup. fold indexStep (eg_Collections envGroup)) envGroups Map.empty"

definition placeholderResult ::
  "CollectionFile \<Rightarrow> string \<Rightarrow> string \<Rightarrow> string \<Rightarrow> string \<Rightarrow> CollectionResult" where
  "placeholderResult col compositeKey dir env collName =
     \<lparr> cr_Collection =
         \<lparr> c_ID = 0, c_Name = cf_Name col, c_FilePath = cf_FullPath col,
           c_CompositeKey = compositeKey, c_DirectoryName = dir,
           c_EnvironmentName = env, c_CollectionName = collName,
           c_CreatedAt = 0, c_UpdatedAt = 0 \<rparr>,
       cr_Execution = None,
       cr_LastSuccessExecution = None,
       cr_Results = [] \<rparr>"

definition matchCollection ::
  "lowering \<Rightarrow> env_heap \<Rightarrow> (string \<rightharpoonup> CollectionResult) \<Rightarrow> CollectionGroup \<Rightarrow> CollectionFile
     \<Rightarrow> CollectionResult" where
  "matchCollection U eh resultsByCompositeKey grp col =
     (case readKey U eh grp col of
        (compositeKey, dir, env, collName) \<Rightarrow>
          (case resultsByCompositeKey compositeKey of
             Some result \<Rightarrow> result
           | None \<Rightarrow> placeholderResult col compositeKey dir env collName))"

definition resultGroup ::
  "lowering \<Rightarrow> env_heap \<Rightarrow> (string \<rightharpoonup> CollectionResult) \<Rightarrow> CollectionGroup \<Rightarrow> EnvironmentGroup" where
  "resultGroup U eh resultsByCompositeKey grp =
     \<lparr> eg_Environment =
         map_option (\<lambda>e. \<lparr> ei_Name = ef_Name e, ei_FileName = ef_FileName e,
                            ei_Path = ef_Path e \<rparr>)
           (groupEnv eh grp),
       eg_Directory = g_Directory grp,
       eg_Collections = map (matchCollection U eh resultsByCompositeKey grp) (g_Collections grp) \<rparr>"

definition handleResults ::
  "lowering \<Rightarrow> string \<Rightarrow> loopvar \<Rightarrow> root_dir \<Rightarrow> groupKey list \<Rightarrow> int \<Rightarrow> DB
     \<Rightarrow> error + exec_heap \<times> LatestResults" where
  "handleResults U method lv root order now db =
     (if method \<noteq> ''GET'' then Inl MethodNotAllowed
      else
        (case ScanGroups U lv root of
           Inl err \<Rightarrow> Inl err
         | Inr (eh, groups) \<Rightarrow>
             (case GetLatestResults lv order now db of
                (xh, storageResults) \<Rightarrow>
                  let resultsByCompositeKey =
                        indexResults (lr_EnvironmentGroups storageResults);
                      environmentGroups = map (resultGroup U eh resultsByCompositeKey) groups
                  in Inr (xh, \<lparr> lr_EnvironmentGroups = environmentGroups,
                                 lr_UpdatedAt = lr_UpdatedAt storageResults \<rparr>))))"

section \<open>The runner (package executor)\<close>

record ExecutionSummary =
  es_Total :: int
  es_Passed :: int
  es_Failed :: int

record TestInfo =
  ti_Name :: string
  ti_Passed :: bool
  ti_Error :: "string option"
  ti_ExecutionName :: string

record ExecutionInfo =
  xi_Name :: string
  xi_URL :: string
  xi_Method :: string
  xi_Status :: string
  xi_StatusCode :: "int option"
  xi_ResponseTime :: "int option"
  xi_Error :: "string option"

record NewmanResult =
  nr_CollectionName :: string
  nr_CollectionPath :: string
  nr_Timestamp :: string
  nr_Summary :: ExecutionSummary
  nr_Tests :: "TestInfo list"
  nr_Executions :: "ExecutionInfo list"
  nr_TotalDurationMs :: int
  nr_Error :: "string option"

record NewmanExecutor =
  ne_nodeExecutable :: string
  ne_scriptPath :: string

text \<open>
  What lies outside the program: \<open>filepath.Abs\<close> (\<open>None\<close> when it fails), the
  external process (for an executable and its arguments: whether running it returned
  an error, and its standard output decoded as a result, \<open>None\<close> when decoding
  fails), the parser of RFC 3339 timestamps and the clock.
\<close>

record World =
  w_Abs :: "string \<Rightarrow> string option"
  w_Run :: "string \<Rightarrow> string list \<Rightarrow> bool \<times> NewmanResult option"
  w_ParseTime :: "string \<Rightarrow> int option"
  w_Now :: int

definition Execute ::
  "NewmanExecutor \<Rightarrow> World \<Rightarrow> string \<Rightarrow> string option \<Rightarrow> string \<Rightarrow> string option
     \<Rightarrow> NewmanResult option \<times> error option" where
  "Execute e w collectionPath environmentPath directoryName environmentName =
     (case w_Abs w (ne_scriptPath e) of
        None \<Rightarrow> (None, Some ResolvePathFailed)
      | Some scriptPath \<Rightarrow>
     (case w_Abs w collectionPath of
        None \<Rightarrow> (None, Some ResolvePathFailed)
      | Some absCollectionPath \<Rightarrow>
     (case (case environmentPath of
              None \<Rightarrow> Some []
            | Some p \<Rightarrow> if p \<noteq> [] then w_Abs w p else Some []) of
        None \<Rightarrow> (None, Some ResolvePathFailed)
      | Some environmentArg \<Rightarrow>
          let nameArg = (case environmentName of
                           None \<Rightarrow> []
                         | Some n \<Rightarrow> if n \<noteq> [] then n else []);
              args = [scriptPath, absCollectionPath, environmentArg, directoryName, nameArg]
          in (case w_Run w (ne_nodeExecutable e) args of
                (runFailed, parsed) \<Rightarrow>
                  (case parsed of
                     None \<Rightarrow> (None, Some ParseNewmanOutputFailed)
                   | Some result \<Rightarrow>
                       (case nr_Error result of
                          Some msg \<Rightarrow>
                            if runFailed
                            then (Some result, Some (NewmanExecutionFailed msg))
                            else (Some result, None)
                        | None \<Rightarrow> (Some result, None)))))))"

section \<open>Writes to the store\<close>

text \<open>
  A write either fails (the flag \<open>fails\<close>: the store rejects or cannot be reached)
  and leaves the store as it is, or takes effect.  An id sequence advances with every
  insert that the store accepts, also when the upsert updates an existing row.
\<close>

definition UpsertCollection ::
  "DB \<Rightarrow> bool \<Rightarrow> string \<Rightarrow> string \<Rightarrow> string \<Rightarrow> string \<Rightarrow> string \<Rightarrow> string \<Rightarrow> int
     \<Rightarrow> error + DB \<times> Collection" where
  "UpsertCollection db fails name filePath compositeKey directoryName environmentName
       collectionName now =
     (if fails then Inl UpsertCollectionFailed
      else
        (case find (\<lambda>c. c_CompositeKey c = compositeKey) (collections db) of
           Some old \<Rightarrow>
             Inr (db\<lparr> collections :=
                        map (\<lambda>c. if c_CompositeKey c = compositeKey
                                  then c\<lparr> c_Name := name, c_UpdatedAt := now \<rparr> else c)
                          (collections db),
                      seq_collections := seq_collections db + 1 \<rparr>,
                  old\<lparr> c_Name := name, c_UpdatedAt := now \<rparr>)
         | None \<Rightarrow>
             let c = \<lparr> c_ID = seq_collections db + 1, c_Name = name, c_FilePath = filePath,
                       c_CompositeKey = compositeKey, c_DirectoryName = directoryName,
                       c_EnvironmentName = environmentName,
                       c_CollectionName = collectionName,
                       c_CreatedAt = now, c_UpdatedAt = now \<rparr>
             in Inr (db\<lparr> collections := collections db @ [c],
                         seq_collections := seq_collections db + 1 \<rparr>, c)))"

definition CreateTestExecution ::
  "DB \<Rightarrow> bool \<Rightarrow> TestExecution \<Rightarrow> int \<Rightarrow> error + DB \<times> TestExecution" where
  "CreateTestExecution db fails exec now =
     (if fails then Inl CreateTestExecutionFailed
      else
        let row = exec\<lparr> te_ID := seq_executions db + 1, te_CreatedAt := now \<rparr>
        in Inr (db\<lparr> test_executions := test_executions db @ [row],
                    seq_executions := seq_executions db + 1 \<rparr>, row))"

definition CreateTestResult ::
  "DB \<Rightarrow> bool \<Rightarrow> TestResult \<Rightarrow> int \<Rightarrow> error + DB \<times> TestResult" where
  "CreateTestResult db fails result now =
     (if fails then Inl CreateTestResultFailed
      else
        let row = result\<lparr> tr_ID := seq_results db + 1, tr_CreatedAt := now \<rparr>
        in Inr (db\<lparr> test_results := test_results db @ [row],
                    seq_results := seq_results db + 1 \<rparr>, row))"

section \<open>The orchestrator (package scheduler)\<close>

datatype logline =
    LogExecuting string bool
  | LogNewmanError string
  | LogUpsertError string
  | LogCreateExecutionError string
  | LogCreateResultError string
  | LogCompleted string
  | LogUnitError string
  | LogScanError
  | LogNoGroups
  | LogCycleCompleted

record Scheduler =
  s_db :: DB
  s_lastRunTime :: int
  s_totalRuns :: int
  s_failedRuns :: int
  s_log :: "logline list"

record Faults =
  f_Upsert :: bool
  f_CreateExecution :: bool
  f_CreateResult :: "nat \<Rightarrow> bool"

definition incrementFailedRuns :: "Scheduler \<Rightarrow> Scheduler" where
  "incrementFailedRuns s = s\<lparr> s_failedRuns := s_failedRuns s + 1 \<rparr>"

definition logLine :: "logline \<Rightarrow> Scheduler \<Rightarrow> Scheduler" where
  "logLine l s = s\<lparr> s_log := s_log s @ [l] \<rparr>"

text \<open>
  One assertion of a result becomes one row; the request data come from the first
  reported request execution of the same name.  A failed write of a row is logged and
  the loop goes on.
\<close>

definition makeTestResult :: "NewmanResult \<Rightarrow> TestExecution \<Rightarrow> TestInfo \<Rightarrow> TestResult" where
  "makeTestResult result execution test =
     (let testResult =
            \<lparr> tr_ID = 0, tr_ExecutionID = te_ID execution, tr_TestName = ti_Name test,
              tr_ExecutionName = Some (ti_ExecutionName test),
              tr_URL = None, tr_Method = None, tr_Status = ''unknown'',
              tr_StatusCode = None, tr_ResponseTimeMs = None,
              tr_Passed = ti_Passed test, tr_Error = ti_Error test, tr_CreatedAt = 0 \<rparr>
      in (case find (\<lambda>exec. xi_Name exec = ti_ExecutionName test) (nr_Executions result) of
            None \<Rightarrow> testResult
          | Some exec \<Rightarrow>
              testResult\<lparr> tr_URL := Some (xi_URL exec), tr_Method := Some (xi_Method exec),
                          tr_Status := xi_Status exec, tr_StatusCode := xi_StatusCode exec,
                          tr_ResponseTimeMs := xi_ResponseTime exec \<rparr>))"

definition storeTestResult ::
  "World \<Rightarrow> Faults \<Rightarrow> NewmanResult \<Rightarrow> TestExecution \<Rightarrow> nat \<times> TestInfo
     \<Rightarrow> Scheduler \<Rightarrow> Scheduler" where
  "storeTestResult w faults result execution it s =
     (case it of (i, test) \<Rightarrow>
        (case CreateTestResult (s_db s) (f_CreateResult faults i)
                (makeTestResult result execution test) (w_Now w) of
           Inl err \<Rightarrow> logLine (LogCreateResultError (ti_Name test)) s
         | Inr (db', row) \<Rightarrow> s\<lparr> s_db := db' \<rparr>))"

text \<open>
  The part of \<open>executeCollection\<close> after the runner has returned a result: upsert the
  collection row, write the execution, write the assertion rows.  Timestamps are
  nanoseconds.  The duration \<open>time.Duration(ms) * time.Millisecond\<close> is a signed 64-bit
  product and wraps around; a time holds its seconds and nanoseconds apart, so adding
  the duration to the start does not wrap.
\<close>

definition wrap64 :: "int \<Rightarrow> int" where
  "wrap64 x = (x + 2 ^ 63) mod 2 ^ 64 - 2 ^ 63"

definition newExecution :: "World \<Rightarrow> NewmanResult \<Rightarrow> Collection \<Rightarrow> TestExecution" where
  "newExecution w result dbCollection =
     (let timestamp = (case w_ParseTime w (nr_Timestamp result) of
                         None \<Rightarrow> w_Now w
                       | Some t \<Rightarrow> t)
      in \<lparr> te_ID = 0,
           te_CollectionID = c_ID dbCollection,
           te_CollectionName = nr_CollectionName result,
           te_StartedAt = timestamp,
           te_CompletedAt = timestamp + wrap64 (nr_TotalDurationMs result * 1000000),
           te_DurationMs = nr_TotalDurationMs result,
           te_TotalTests = es_Total (nr_Summary result),
           te_PassedTests = es_Passed (nr_Summary result),
           te_FailedTests = es_Failed (nr_Summary result),
           te_Error = nr_Error result,
           te_CreatedAt = 0 \<rparr>)"

definition persistResult ::
  "World \<Rightarrow> Faults \<Rightarrow> CollectionFile \<Rightarrow> string \<times> string \<times> string \<times> string
     \<Rightarrow> NewmanResult \<Rightarrow> Scheduler \<Rightarrow> Scheduler \<times> error option" where
  "persistResult w faults col key result s =
     (case key of (compositeKey, dir, env, collName) \<Rightarrow>
        (case UpsertCollection (s_db s) (f_Upsert faults) (nr_CollectionName result)
                (cf_FullPath col) compositeKey dir env collName (w_Now w) of
           Inl err \<Rightarrow>
             (incrementFailedRuns (logLine (LogUpsertError (cf_Name col)) s), Some err)
         | Inr (db1, dbCollection) \<Rightarrow>
             let execution = newExecution w result dbCollection
             in (case CreateTestExecution db1 (f_CreateExecution faults) execution
                        (w_Now w) of
                   Inl err \<Rightarrow>
                     (incrementFailedRuns
                        (logLine (LogCreateExecutionError (cf_Name col)) (s\<lparr> s_db := db1 \<rparr>)),
                      Some err)
                 | Inr (db2, stored) \<Rightarrow>
                     (logLine (LogCompleted (cf_Name col))
                        (fold (storeTestResult w faults result stored)
                           (enumerate 0 (nr_Tests result)) (s\<lparr> s_db := db2 \<rparr>)),
                      None))))"

definition executeCollection ::
  "lowering \<Rightarrow> NewmanExecutor \<Rightarrow> World \<Rightarrow> Faults
     \<Rightarrow> CollectionFile \<times> string option \<times> string \<times> string option
     \<Rightarrow> Scheduler \<Rightarrow> Scheduler \<times> error option" where
  "executeCollection U ex w faults args s0 =
     (case args of (col, environmentPath, directoryName, environmentName) \<Rightarrow>
        let s = logLine (LogExecuting (cf_Name col) (environmentPath \<noteq> None)) s0
        in (case dispatchKey U args of
              (compositeKey, dir, env, collName) \<Rightarrow>
                let normalizedEnvName = (if env = ''env'' then None else Some env)
                in (case Execute ex w (cf_FullPath col) environmentPath dir
                           normalizedEnvName of
                      (None, Some err) \<Rightarrow>
                        (incrementFailedRuns (logLine (LogNewmanError (cf_Name col)) s),
                         Some err)
                    | (None, None) \<Rightarrow> (s, Some NilPointerDereference)
                    | (Some result, Some err) \<Rightarrow>
                        persistResult w faults col (compositeKey, dir, env, collName) result
                          (logLine (LogNewmanError (cf_Name col)) s)
                    | (Some result, None) \<Rightarrow>
                        persistResult w faults col (compositeKey, dir, env, collName) result
                          s)))"

text \<open>
  The runner's answer for an execution unit: the call of \<open>Execute\<close> that
  \<open>executeCollection\<close> makes for the unit's arguments.
\<close>

definition unitRun ::
  "lowering \<Rightarrow> NewmanExecutor \<Rightarrow> World \<Rightarrow> CollectionFile \<times> string option \<times> string \<times> string option
     \<Rightarrow> NewmanResult option \<times> error option" where
  "unitRun U ex w args =
     (case args of (col, environmentPath, directoryName, environmentName) \<Rightarrow>
        (case dispatchKey U args of
           (compositeKey, dir, env, collName) \<Rightarrow>
             Execute ex w (cf_FullPath col) environmentPath dir
               (if env = ''env'' then None else Some env)))"

text \<open>
  The body of the goroutine that \<open>runOnce\<close> starts for a unit: the call of
  \<open>executeCollection\<close>, and a log line for the error that it returns.
\<close>

definition runUnit ::
  "lowering \<Rightarrow> NewmanExecutor \<Rightarrow> World \<Rightarrow> Faults
     \<Rightarrow> CollectionFile \<times> string option \<times> string \<times> string option
     \<Rightarrow> Scheduler \<Rightarrow> Scheduler" where
  "runUnit U ex w faults args s =
     (case executeCollection U ex w faults args s of
        (s', None) \<Rightarrow> s'
      | (s', Some err) \<Rightarrow> logLine (LogUnitError (cf_Name (fst args))) s')"

definition dispatchUnits ::
  "env_heap \<Rightarrow> CollectionGroup list
     \<Rightarrow> (CollectionFile \<times> string option \<times> string \<times> string option) list" where
  "dispatchUnits eh groups =
     concat (map (\<lambda>grp. map (dispatchArgs eh grp) (g_Collections grp)) groups)"

subsection \<open>The goroutines of a cycle\<close>

text \<open>
  The units of a cycle run as goroutines, concurrently, and \<open>runOnce\<close> waits for all
  of them before it ends.  A goroutine touches the state that the goroutines share one
  access at a time: a line of the log, the locked failure counter, one statement of
  the store.  A value of \<open>goroutine\<close> says where a goroutine stands between two
  accesses, with the local variables that it still needs; \<open>step\<close> takes it to the
  next stand and makes at most one access to the shared state.  The call of the runner
  is a step that touches nothing shared.
\<close>

datatype goroutine =
    PcBegin
  | PcRun
  | PcLog logline goroutine
  | PcCountFailure error
  | PcUpsert NewmanResult
  | PcInsert NewmanResult Collection
  | PcResults NewmanResult TestExecution "(nat \<times> TestInfo) list"
  | PcReturn "error option"
  | PcFinished

fun step ::
  "lowering \<Rightarrow> NewmanExecutor \<Rightarrow> World \<Rightarrow> Faults
     \<Rightarrow> CollectionFile \<times> string option \<times> string \<times> string option
     \<Rightarrow> goroutine \<Rightarrow> Scheduler \<Rightarrow> goroutine \<times> Scheduler" where
  "step U ex w faults args PcBegin s =
     (PcRun, logLine (LogExecuting (cf_Name (fst args)) (fst (snd args) \<noteq> None)) s)"
| "step U ex w faults args PcRun s =
     (case unitRun U ex w args of
        (None, Some err) \<Rightarrow>
          (PcLog (LogNewmanError (cf_Name (fst args))) (PcCountFailure err), s)
      | (None, None) \<Rightarrow> (PcReturn (Some NilPointerDereference), s)
      | (Some result, Some err) \<Rightarrow>
          (PcLog (LogNewmanError (cf_Name (fst args))) (PcUpsert result), s)
      | (Some result, None) \<Rightarrow> (PcUpsert result, s))"
| "step U ex w faults args (PcLog l next) s = (next, logLine l s)"
| "step U ex w faults args (PcCountFailure err) s =
     (PcReturn (Some err), incrementFailedRuns s)"
| "step U ex w faults args (PcUpsert result) s =
     (case dispatchKey U args of (compositeKey, dir, env, collName) \<Rightarrow>
        (case UpsertCollection (s_db s) (f_Upsert faults) (nr_CollectionName result)
                (cf_FullPath (fst args)) compositeKey dir env collName (w_Now w) of
           Inl err \<Rightarrow> (PcLog (LogUpsertError (cf_Name (fst args))) (PcCountFailure err), s)
         | Inr (db1, dbCollection) \<Rightarrow> (PcInsert result dbCollection, s\<lparr> s_db := db1 \<rparr>)))"
| "step U ex w faults args (PcInsert result dbCollection) s =
     (case CreateTestExecution (s_db s) (f_CreateExecution faults)
             (newExecution w result dbCollection) (w_Now w) of
        Inl err \<Rightarrow>
          (PcLog (LogCreateExecutionError (cf_Name (fst args))) (PcCountFailure err), s)
      | Inr (db2, stored) \<Rightarrow>
          (PcResults result stored (enumerate 0 (nr_Tests result)), s\<lparr> s_db := db2 \<rparr>))"
| "step U ex w faults args (PcResults result stored []) s =
     (PcLog (LogCompleted (cf_Name (fst args))) (PcReturn None), s)"
| "step U ex w faults args (PcResults result stored ((i, test) # tests)) s =
     (case CreateTestResult (s_db s) (f_CreateResult faults i)
             (makeTestResult result stored test) (w_Now w) of
        Inl err \<Rightarrow>
          (PcLog (LogCreateResultError (ti_Name test)) (PcResults result stored tests), s)
      | Inr (db', row) \<Rightarrow> (PcResults result stored tests, s\<lparr> s_db := db' \<rparr>))"
| "step U ex w faults args (PcReturn None) s = (PcFinished, s)"
| "step U ex w faults args (PcReturn (Some err)) s =
     (PcLog (LogUnitError (cf_Name (fst args))) PcFinished, s)"
| "step U ex w faults args PcFinished s = (PcFinished, s)"

text \<open>
  A bound on the steps that a goroutine has still to take; every step of a goroutine
  that has not finished lowers it.
\<close>

fun stepsLeft ::
  "lowering \<Rightarrow> NewmanExecutor \<Rightarrow> World
     \<Rightarrow> CollectionFile \<times> string option \<times> string \<times> string option
     \<Rightarrow> goroutine \<Rightarrow> nat" where
  "stepsLeft U ex w args PcBegin =
     (case fst (unitRun U ex w args) of
        None \<Rightarrow> 6
      | Some result \<Rightarrow> 9 + 2 * length (nr_Tests result))"
| "stepsLeft U ex w args PcRun =
     (case fst (unitRun U ex w args) of
        None \<Rightarrow> 5
      | Some result \<Rightarrow> 8 + 2 * length (nr_Tests result))"
| "stepsLeft U ex w args (PcLog l next) = Suc (stepsLeft U ex w args next)"
| "stepsLeft U ex w args (PcCountFailure err) = 3"
| "stepsLeft U ex w args (PcUpsert result) = 6 + 2 * length (nr_Tests result)"
| "stepsLeft U ex w args (PcInsert result dbCollection) = 5 + 2 * length (nr_Tests result)"
| "stepsLeft U ex w args (PcResults result stored tests) = 4 + 2 * length tests"
| "stepsLeft U ex w args (PcReturn err) = 2"
| "stepsLeft U ex w args PcFinished = 0"

text \<open>A goroutine that runs on its own from where it stands until it has finished.\<close>

function finish ::
  "lowering \<Rightarrow> NewmanExecutor \<Rightarrow> World \<Rightarrow> Faults
     \<Rightarrow> CollectionFile \<times> string option \<times> string \<times> string option
     \<Rightarrow> goroutine \<Rightarrow> Scheduler \<Rightarrow> Scheduler" where
  "finish U ex w faults args g s =
     (if g = PcFinished then s
      else (case step U ex w faults args g s of
              (g', s') \<Rightarrow> finish U ex w faults args g' s'))"
  by pat_completeness auto
termination
proof (relation "measure (\<lambda>(U, ex, w, faults, args, g, s). stepsLeft U ex w args g)")
  show "wf (measure (\<lambda>(U, ex, w, faults, args, g, s). stepsLeft U ex w args g))"
    by simp
next
  fix U ex w faults args g s g' s'
  assume g: "g \<noteq> PcFinished" and p: "(g', s') = step U ex w faults args g s"
  have "stepsLeft U ex w args (fst (step U ex w faults args g s)) < stepsLeft U ex w args g"
  proof (cases g)
    case PcRun
    then show ?thesis
      by (cases "unitRun U ex w args") (auto split: option.splits)
  next
    case (PcUpsert result)
    then show ?thesis
      by (auto split: prod.splits sum.splits)
  next
    case (PcInsert result dbCollection)
    then show ?thesis
      by (auto split: prod.splits sum.splits)
  next
    case (PcResults result stored tests)
    then show ?thesis
      by (cases tests) (auto split: prod.splits sum.splits)
  next
    case (PcReturn err)
    then show ?thesis by (cases err) auto
  qed (use g in \<open>auto split: option.splits\<close>)
  moreover from p have "g' = fst (step U ex w faults args g s)" by (metis fst_conv)
  ultimately show "((U, ex, w, faults, args, g', s'), (U, ex, w, faults, args, g, s))
        \<in> measure (\<lambda>(U, ex, w, faults, args, g, s). stepsLeft U ex w args g)"
    by simp
qed

declare finish.simps [simp del]

text \<open>
  A run cycle.  Every dispatched unit gets a goroutine, which stands at its beginning.
  The parameter \<open>schedule\<close> is the order in which the run lets the goroutines step:
  each entry names, by its dispatch index, the goroutine that takes the next step.
  \<open>runOnce\<close> then waits for the goroutines: those that the schedule has not brought
  to their end run on to it.  So every interleaving of the goroutines' accesses is the
  run of some schedule, and every schedule is the run of an interleaving.  The error of
  a unit is logged by the goroutine and nothing else is done with it.  The refresh of
  the metrics at the end of a cycle reads the store and changes nothing that the model
  holds.
\<close>

definition stepAt ::
  "lowering \<Rightarrow> NewmanExecutor \<Rightarrow> World \<Rightarrow> (nat \<Rightarrow> Faults)
     \<Rightarrow> (CollectionFile \<times> string option \<times> string \<times> string option) list
     \<Rightarrow> nat \<Rightarrow> goroutine list \<times> Scheduler \<Rightarrow> goroutine list \<times> Scheduler" where
  "stepAt U ex w faultsOf units i cfg =
     (case cfg of (gs, s) \<Rightarrow>
        if i < length gs
        then (case step U ex w (faultsOf i) (units ! i) (gs ! i) s of
                (g', s') \<Rightarrow> (gs[i := g'], s'))
        else (gs, s))"

definition waitAll ::
  "lowering \<Rightarrow> NewmanExecutor \<Rightarrow> World \<Rightarrow> (nat \<Rightarrow> Faults)
     \<Rightarrow> (CollectionFile \<times> string option \<times> string \<times> string option) list
     \<Rightarrow> goroutine list \<Rightarrow> Scheduler \<Rightarrow> Scheduler" where
  "waitAll U ex w faultsOf units gs s =
     fold (\<lambda>i. finish U ex w (faultsOf i) (units ! i) (gs ! i)) [0..<length gs] s"

definition dispatchAndWait ::
  "lowering \<Rightarrow> NewmanExecutor \<Rightarrow> World \<Rightarrow> (nat \<Rightarrow> Faults)
     \<Rightarrow> (CollectionFile \<times> string option \<times> string \<times> string option) list
     \<Rightarrow> nat list \<Rightarrow> Scheduler \<Rightarrow> Scheduler" where
  "dispatchAndWait U ex w faultsOf units schedule s =
     (case fold (stepAt U ex w faultsOf units) schedule (map (\<lambda>unit. PcBegin) units, s) of
        (gs, s') \<Rightarrow> waitAll U ex w faultsOf units gs s')"

definition runOnce ::
  "lowering \<Rightarrow> loopvar \<Rightarrow> NewmanExecutor \<Rightarrow> World \<Rightarrow> root_dir \<Rightarrow> (nat \<Rightarrow> Faults)
     \<Rightarrow> nat list \<Rightarrow> Scheduler \<Rightarrow> Scheduler" where
  "runOnce U lv ex w root faultsOf schedule s0 =
     (let s = s0\<lparr> s_lastRunTime := w_Now w, s_totalRuns := s_totalRuns s0 + 1 \<rparr>
      in (case ScanGroups U lv root of
            Inl err \<Rightarrow> incrementFailedRuns (logLine LogScanError s)
          | Inr (eh, groups) \<Rightarrow>
              if length groups = 0 then logLine LogNoGroups s
              else logLine LogCycleCompleted
                     (dispatchAndWait U ex w faultsOf (dispatchUnits eh groups) schedule s)))"

section \<open>Example inputs\<close>

text \<open>
  A subdirectory \<open>billing\<close> with two environment files whose content has no name
  field, and one collection file.
\<close>

definition ex_a_env :: EnvironmentFile where
  "ex_a_env = \<lparr> ef_Name = ''a'', ef_FileName = ''a.postman_environment.json'',
       ef_Path = ''billing/a.postman_environment.json'',
       ef_FullPath = ''/c/billing/a.postman_environment.json'' \<rparr>"

definition ex_b_env :: EnvironmentFile where
  "ex_b_env = \<lparr> ef_Name = ''b'', ef_FileName = ''b.postman_environment.json'',
       ef_Path = ''billing/b.postman_environment.json'',
       ef_FullPath = ''/c/billing/b.postman_environment.json'' \<rparr>"

definition ex_x_col :: CollectionFile where
  "ex_x_col = \<lparr> cf_Name = ''x.json'', cf_Path = ''billing/x.json'',
       cf_FullPath = ''/c/billing/x.json'' \<rparr>"

definition ex_billing_entries :: "DirEntry list" where
  "ex_billing_entries =
     [\<lparr> de_Name = ''a.postman_environment.json'', de_IsDir = False,
         de_Abs = Some ''/c/billing/a.postman_environment.json'',
         de_Rel = Some ''billing/a.postman_environment.json'', de_Content = JsonName [] \<rparr>,
      \<lparr> de_Name = ''b.postman_environment.json'', de_IsDir = False,
         de_Abs = Some ''/c/billing/b.postman_environment.json'',
         de_Rel = Some ''billing/b.postman_environment.json'', de_Content = JsonName [] \<rparr>,
      \<lparr> de_Name = ''x.json'', de_IsDir = False,
         de_Abs = Some ''/c/billing/x.json'',
         de_Rel = Some ''billing/x.json'', de_Content = JsonInvalid \<rparr>]"

text \<open>
  A root with the subdirectory \<open>billing\<close>, which holds one collection file and the
  environment file \<open>prod.postman_environment.json\<close> whose content names the
  environment \<open>Production\<close>.
\<close>

definition ex_prod_root :: root_dir where
  "ex_prod_root =
     RootListing
       [\<lparr> re_Name = ''billing'', re_IsDir = True,
          re_Entries = Some
            [\<lparr> de_Name = ''checkout.postman_collection.json'', de_IsDir = False,
                de_Abs = Some ''/c/billing/checkout.postman_collection.json'',
                de_Rel = Some ''billing/checkout.postman_collection.json'',
                de_Content = JsonInvalid \<rparr>,
             \<lparr> de_Name = ''prod.postman_environment.json'', de_IsDir = False,
                de_Abs = Some ''/c/billing/prod.postman_environment.json'',
                de_Rel = Some ''billing/prod.postman_environment.json'',
                de_Content = JsonName ''Production'' \<rparr>] \<rparr>]"

definition ex_prod_env :: EnvironmentFile where
  "ex_prod_env = \<lparr> ef_Name = ''Production'', ef_FileName = ''prod.postman_environment.json'',
       ef_Path = ''billing/prod.postman_environment.json'',
       ef_FullPath = ''/c/billing/prod.postman_environment.json'' \<rparr>"

definition ex_checkout_col :: CollectionFile where
  "ex_checkout_col = \<lparr> cf_Name = ''checkout.postman_collection.json'',
       cf_Path = ''billing/checkout.postman_collection.json'',
       cf_FullPath = ''/c/billing/checkout.postman_collection.json'' \<rparr>"

definition ex_prod_group :: CollectionGroup where
  "ex_prod_group = \<lparr> g_Directory = ''billing'', g_Environment = Some 0,
       g_Collections = [ex_checkout_col] \<rparr>"

text \<open>Stores: rows for a collection and for an execution, and stores built from them.\<close>

definition ex_execution :: "int \<Rightarrow> int \<Rightarrow> int \<Rightarrow> int \<Rightarrow> int \<Rightarrow> TestExecution" where
  "ex_execution i collectionID startedAt totalTests failedTests =
     \<lparr> te_ID = i, te_CollectionID = collectionID, te_CollectionName = ''checkout'',
       te_StartedAt = startedAt, te_CompletedAt = startedAt, te_DurationMs = 0,
       te_TotalTests = totalTests, te_PassedTests = totalTests - failedTests,
       te_FailedTests = failedTests,
       te_Error = None, te_CreatedAt = startedAt \<rparr>"

definition ex_store :: "Collection list \<Rightarrow> TestExecution list \<Rightarrow> DB" where
  "ex_store cs es =
     \<lparr> collections = cs, test_executions = es, test_results = [],
       seq_collections = int (length cs), seq_executions = int (length es),
       seq_results = 0 \<rparr>"

definition ex_collection :: "int \<Rightarrow> string \<Rightarrow> string \<Rightarrow> string \<Rightarrow> Collection" where
  "ex_collection i dir env name =
     \<lparr> c_ID = i, c_Name = name,
       c_FilePath = ''/c/'' @ dir @ ''/'' @ name @ ''.postman_collection.json'',
       c_CompositeKey = dir @ ''_'' @ env @ ''_'' @ name,
       c_DirectoryName = dir, c_EnvironmentName = env, c_CollectionName = name,
       c_CreatedAt = 0, c_UpdatedAt = 0 \<rparr>"

definition ex_db1 :: DB where
  "ex_db1 =
     ex_store [ex_collection 7 ''billing'' ''prod'' ''checkout'']
       [ex_execution 1 7 10 5 2, ex_execution 2 7 20 5 0, ex_execution 3 7 30 0 0]"

definition ex_db2 :: DB where
  "ex_db2 =
     ex_store [ex_collection 7 ''billing'' ''prod'' ''checkout'',
               ex_collection 8 ''auth'' ''env'' ''login'']
       [ex_execution 1 7 10 5 2, ex_execution 2 8 20 5 0]"

definition ex_db3 :: DB where
  "ex_db3 =
     ex_store [ex_collection 7 ''billing'' ''production'' ''checkout'']
       [ex_execution 1 7 10 5 2]"

section \<open>Predicates of the statements\<close>

text \<open>
  A result belongs to an execution of the latest-executions query: its collection is
  a row of the collections query with the execution's collection id, its execution
  pointer is not nil, and its last success and result rows are those of the execution.
\<close>

definition resultOf :: "DB \<Rightarrow> Collection list \<Rightarrow> TestExecution \<Rightarrow> CollectionResult \<Rightarrow> bool" where
  "resultOf db allc exec cr =
     (cr_Collection cr \<in> set allc \<and> c_ID (cr_Collection cr) = te_CollectionID exec
      \<and> cr_Execution cr \<noteq> None
      \<and> cr_LastSuccessExecution cr = GetLastSuccessfulExecution db (te_CollectionID exec)
      \<and> cr_Results cr = GetTestResultsByExecutionID db (te_ID exec))"

text \<open>
  A composite key has persisted history when the store holds a collection row with that
  key and at least one execution row that refers to it.
\<close>

definition hasPersistedExecution :: "DB \<Rightarrow> string \<Rightarrow> bool" where
  "hasPersistedExecution db key =
     (\<exists>c \<in> set (collections db). c_CompositeKey c = key
        \<and> (\<exists>e \<in> set (test_executions db). te_CollectionID e = c_ID c))"

text \<open>The collections that the log reports as started, in order.\<close>

fun started :: "logline list \<Rightarrow> string list" where
  "started [] = []"
| "started (LogExecuting name withEnvironment # ls) = name # started ls"
| "started (l # ls) = started ls"

text \<open>What a row and a result say about a run, apart from ids and timestamps.\<close>

definition rowSummary :: "TestExecution \<Rightarrow> string \<times> string option \<times> int \<times> int \<times> int \<times> int" where
  "rowSummary e =
     (te_CollectionName e, te_Error e, te_TotalTests e, te_PassedTests e, te_FailedTests e,
      te_DurationMs e)"

definition resultSummary :: "NewmanResult \<Rightarrow> string \<times> string option \<times> int \<times> int \<times> int \<times> int" where
  "resultSummary r =
     (nr_CollectionName r, nr_Error r, es_Total (nr_Summary r), es_Passed (nr_Summary r),
      es_Failed (nr_Summary r), nr_TotalDurationMs r)"

text \<open>
  The execution row that a unit is to add: the row of the runner's result when there is
  a result and the store accepts the upsert and the execution row, none otherwise.
\<close>

definition expectedRow ::
  "lowering \<Rightarrow> NewmanExecutor \<Rightarrow> World \<Rightarrow> Faults
     \<Rightarrow> CollectionFile \<times> string option \<times> string \<times> string option
     \<Rightarrow> (string \<times> string option \<times> int \<times> int \<times> int \<times> int) list" where
  "expectedRow U ex w faults args =
     (case fst (unitRun U ex w args) of
        None \<Rightarrow> []
      | Some result \<Rightarrow>
          if f_Upsert faults \<or> f_CreateExecution faults then [] else [resultSummary result])"

definition expectedRows ::
  "lowering \<Rightarrow> NewmanExecutor \<Rightarrow> World \<Rightarrow> (nat \<Rightarrow> Faults)
     \<Rightarrow> (nat \<times> CollectionFile \<times> string option \<times> string \<times> string option) list
     \<Rightarrow> (string \<times> string option \<times> int \<times> int \<times> int \<times> int) list" where
  "expectedRows U ex w faultsOf units =
     concat (map (\<lambda>unit. expectedRow U ex w (faultsOf (fst unit)) (snd unit)) units)"

definition failedUnits ::
  "lowering \<Rightarrow> NewmanExecutor \<Rightarrow> World \<Rightarrow> (nat \<Rightarrow> Faults)
     \<Rightarrow> (nat \<times> CollectionFile \<times> string option \<times> string \<times> string option) list \<Rightarrow> nat" where
  "failedUnits U ex w faultsOf units =
     length (filter (\<lambda>unit. expectedRow U ex w (faultsOf (fst unit)) (snd unit) = []) units)"

text \<open>
  What a goroutine has still to add from where it stands: the execution row, the count
  of a failure, the log line of its start.
\<close>

fun pendingRows ::
  "lowering \<Rightarrow> NewmanExecutor \<Rightarrow> World \<Rightarrow> Faults
     \<Rightarrow> CollectionFile \<times> string option \<times> string \<times> string option
     \<Rightarrow> goroutine \<Rightarrow> (string \<times> string option \<times> int \<times> int \<times> int \<times> int) list" where
  "pendingRows U ex w faults args PcBegin = expectedRow U ex w faults args"
| "pendingRows U ex w faults args PcRun = expectedRow U ex w faults args"
| "pendingRows U ex w faults args (PcLog l next) = pendingRows U ex w faults args next"
| "pendingRows U ex w faults args (PcUpsert result) =
     (if f_Upsert faults \<or> f_CreateExecution faults then [] else [resultSummary result])"
| "pendingRows U ex w faults args (PcInsert result dbCollection) =
     (if f_CreateExecution faults then [] else [resultSummary result])"
| "pendingRows U ex w faults args g = []"

fun pendingFailures ::
  "lowering \<Rightarrow> NewmanExecutor \<Rightarrow> World \<Rightarrow> Faults
     \<Rightarrow> CollectionFile \<times> string option \<times> string \<times> string option
     \<Rightarrow> goroutine \<Rightarrow> nat" where
  "pendingFailures U ex w faults args PcBegin =
     (if expectedRow U ex w faults args = [] then 1 else 0)"
| "pendingFailures U ex w faults args PcRun =
     (if expectedRow U ex w faults args = [] then 1 else 0)"
| "pendingFailures U ex w faults args (PcLog l next) = pendingFailures U ex w faults args next"
| "pendingFailures U ex w faults args (PcCountFailure err) = 1"
| "pendingFailures U ex w faults args (PcUpsert result) =
     (if f_Upsert faults \<or> f_CreateExecution faults then 1 else 0)"
| "pendingFailures U ex w faults args (PcInsert result dbCollection) =
     (if f_CreateExecution faults then 1 else 0)"
| "pendingFailures U ex w faults args g = 0"

fun pendingStarts ::
  "CollectionFile \<times> string option \<times> string \<times> string option \<Rightarrow> goroutine \<Rightarrow> string list" where
  "pendingStarts args PcBegin = [cf_Name (fst args)]"
| "pendingStarts args (PcLog l next) = started [l] @ pendingStarts args next"
| "pendingStarts args g = []"

section \<open>Example runner and scheduler\<close>

text \<open>
  A runner whose process exits with an error after printing a result that carries a
  top-level error; a store with no write failures and one that refuses the upsert; a
  scheduler that has not run yet.
\<close>

definition ex_result :: NewmanResult where
  "ex_result =
     \<lparr> nr_CollectionName = ''Checkout'', nr_CollectionPath = ''/c/billing/checkout'',
       nr_Timestamp = ''now'',
       nr_Summary = \<lparr> es_Total = 5, es_Passed = 3, es_Failed = 2 \<rparr>,
       nr_Tests = [], nr_Executions = [], nr_TotalDurationMs = 100,
       nr_Error = Some ''boom'' \<rparr>"

definition ex_world :: World where
  "ex_world =
     \<lparr> w_Abs = Some, w_Run = (\<lambda>executable args. (True, Some ex_result)),
       w_ParseTime = (\<lambda>s. None), w_Now = 50 \<rparr>"

definition ex_executor :: NewmanExecutor where
  "ex_executor = \<lparr> ne_nodeExecutable = ''node'', ne_scriptPath = ''newman/executor.js'' \<rparr>"

definition ex_faults :: Faults where
  "ex_faults = \<lparr> f_Upsert = False, f_CreateExecution = False, f_CreateResult = (\<lambda>i. False) \<rparr>"

definition ex_faults_upsert :: Faults where
  "ex_faults_upsert =
     \<lparr> f_Upsert = True, f_CreateExecution = False, f_CreateResult = (\<lambda>i. False) \<rparr>"

definition ex_scheduler :: Scheduler where
  "ex_scheduler =
     \<lparr> s_db = ex_store [] [], s_lastRunTime = 0, s_totalRuns = 0, s_failedRuns = 0,
       s_log = [] \<rparr>"

text \<open>
  A root whose subdirectory \<open>billing\<close> holds two collection files and the environment
  file, and a runner whose output for the first collection cannot be decoded and which
  exits with an error after printing a result for every other collection.
\<close>

definition ex_auth_col :: CollectionFile where
  "ex_auth_col = \<lparr> cf_Name = ''auth.postman_collection.json'',
       cf_Path = ''billing/auth.postman_collection.json'',
       cf_FullPath = ''/c/billing/auth.postman_collection.json'' \<rparr>"

definition ex_pair_root :: root_dir where
  "ex_pair_root =
     RootListing
       [\<lparr> re_Name = ''billing'', re_IsDir = True,
          re_Entries = Some
            [\<lparr> de_Name = ''auth.postman_collection.json'', de_IsDir = False,
                de_Abs = Some ''/c/billing/auth.postman_collection.json'',
                de_Rel = Some ''billing/auth.postman_collection.json'',
                de_Content = JsonInvalid \<rparr>,
             \<lparr> de_Name = ''checkout.postman_collection.json'', de_IsDir = False,
                de_Abs = Some ''/c/billing/checkout.postman_collection.json'',
                de_Rel = Some ''billing/checkout.postman_collection.json'',
                de_Content = JsonInvalid \<rparr>,
             \<lparr> de_Name = ''prod.postman_environment.json'', de_IsDir = False,
                de_Abs = Some ''/c/billing/prod.postman_environment.json'',
                de_Rel = Some ''billing/prod.postman_environment.json'',
                de_Content = JsonName ''Production'' \<rparr>] \<rparr>]"

definition ex_pair_group :: CollectionGroup where
  "ex_pair_group = \<lparr> g_Directory = ''billing'', g_Environment = Some 0,
       g_Collections = [ex_auth_col, ex_checkout_col] \<rparr>"

definition ex_pair_world :: World where
  "ex_pair_world =
     \<lparr> w_Abs = Some,
       w_Run = (\<lambda>executable args.
                  if args ! 1 = ''/c/billing/auth.postman_collection.json''
                  then (True, None) else (True, Some ex_result)),
       w_ParseTime = (\<lambda>s. None), w_Now = 50 \<rparr>"

section \<open>Properties of the composite key\<close>

lemma ToLower_ASCII: "isASCII s \<Longrightarrow> ToLower U s = map toLower_char s"
  by (simp add: ToLower_def)

lemma isASCII_take: "isASCII s \<Longrightarrow> isASCII (take n s)"
  unfolding isASCII_def list_all_iff by (auto dest: in_set_takeD)

lemma isASCII_TrimSuffix: "isASCII s \<Longrightarrow> isASCII (TrimSuffix s suf)"
  by (simp add: TrimSuffix_def isASCII_take)

lemma ToLower_length:
  "isASCII s \<Longrightarrow> isASCII t \<Longrightarrow> ToLower U s = ToLower U t \<Longrightarrow> length s = length t"
  by (simp add: ToLower_ASCII) (rule map_eq_imp_length_eq)

lemma ToLower_take:
  "isASCII s \<Longrightarrow> ToLower U (take n s) = take n (ToLower U s)"
  by (simp add: ToLower_ASCII isASCII_take take_map)

lemma ToLower_empty:
  "isASCII s \<Longrightarrow> isASCII t \<Longrightarrow> ToLower U s = ToLower U t \<Longrightarrow> (s = []) = (t = [])"
  by (auto simp: ToLower_ASCII)

lemma ToLower_TrimSuffix:
  assumes "isASCII c" and "isASCII c'"
      and "ToLower U c = ToLower U c'" and "HasSuffix c suf \<longleftrightarrow> HasSuffix c' suf"
  shows "ToLower U (TrimSuffix c suf) = ToLower U (TrimSuffix c' suf)"
  using assms ToLower_length[OF assms(1,2,3)] by (simp add: TrimSuffix_def ToLower_take)

text \<open>
  Claim C6, as the code has it, for names written in ASCII.  Two spellings of the inputs
  that consist of ASCII characters and differ in letter case only (equal after
  \<open>ToLower\<close>; the environment absent in both or present in both) give the same key
  and the same components, provided both spellings of the collection file name end
  with the suffix \<open>.postman_collection.json\<close> written in small letters, or neither
  does.  The suffix is stripped before lowercasing and is compared as written.
\<close>

theorem GenerateCompositeKey_case_insensitive:
  assumes "isASCII d" and "isASCII d'"
      and "pred_option isASCII e" and "pred_option isASCII e'"
      and "isASCII c" and "isASCII c'"
      and "ToLower U d = ToLower U d'"
      and "map_option (ToLower U) e = map_option (ToLower U) e'"
      and "ToLower U c = ToLower U c'"
      and "HasSuffix c ''.postman_collection.json''
             \<longleftrightarrow> HasSuffix c' ''.postman_collection.json''"
  shows "GenerateCompositeKey U d e c = GenerateCompositeKey U d' e' c'"
proof -
  have col: "ToLower U (TrimSuffix c ''.postman_collection.json'')
               = ToLower U (TrimSuffix c' ''.postman_collection.json'')"
    using assms(5,6,9,10) by (rule ToLower_TrimSuffix)
  have env: "ToLower U (case e of None \<Rightarrow> ''env'' | Some x \<Rightarrow> if x \<noteq> [] then x else ''env'')
           = ToLower U (case e' of None \<Rightarrow> ''env'' | Some x \<Rightarrow> if x \<noteq> [] then x else ''env'')"
  proof (cases e)
    case None
    with assms(8) have "e' = None" by (cases e') auto
    with None show ?thesis by simp
  next
    case (Some x)
    with assms(8) obtain y where y: "e' = Some y" "ToLower U x = ToLower U y"
      by (cases e') auto
    from Some y(1) assms(3,4) have a: "isASCII x" "isASCII y" by simp_all
    from ToLower_empty[OF a y(2)] Some y show ?thesis by simp
  qed
  show ?thesis
    unfolding GenerateCompositeKey_def Let_def using assms(7) col env by simp
qed

text \<open>The instance of the specification: Billing, Prod, Checkout against their small spellings.\<close>

theorem GenerateCompositeKey_case_insensitive_witness:
  "\<forall>U. GenerateCompositeKey U ''Billing'' (Some ''Prod'') ''Checkout.postman_collection.json''
     = GenerateCompositeKey U ''billing'' (Some ''prod'') ''checkout.postman_collection.json''"
proof
  fix U
  show "GenerateCompositeKey U ''Billing'' (Some ''Prod'') ''Checkout.postman_collection.json''
     = GenerateCompositeKey U ''billing'' (Some ''prod'') ''checkout.postman_collection.json''"
    by (rule GenerateCompositeKey_case_insensitive)
       (simp_all add: ToLower_def isASCII_def toLower_char_def HasSuffix_def)
qed

text \<open>
  Claim C6 as stated fails: two file names that differ in the letter case of the suffix
  only give different keys, because only the small-letter suffix is stripped.
\<close>

theorem GenerateCompositeKey_suffix_case_counterexample:
  "\<forall>U. ToLower U ''checkout.Postman_Collection.json''
          = ToLower U ''checkout.postman_collection.json''
     \<and> GenerateCompositeKey U ''billing'' (Some ''prod'') ''checkout.Postman_Collection.json''
         = (''billing_prod_checkout.postman_collection.json'', ''billing'', ''prod'',
            ''checkout.postman_collection.json'')
     \<and> GenerateCompositeKey U ''billing'' (Some ''prod'') ''checkout.postman_collection.json''
         = (''billing_prod_checkout'', ''billing'', ''prod'', ''checkout'')"
  by (simp add: GenerateCompositeKey_def Let_def TrimSuffix_def HasSuffix_def ToLower_def
      isASCII_def toLower_char_def)

section \<open>Properties of the scanner\<close>

lemma HasSuffix_iff: "HasSuffix s suf \<longleftrightarrow> (\<exists>xs. s = xs @ suf)"
proof
  assume "HasSuffix s suf"
  then have "s = take (length s - length suf) s @ suf"
    by (metis HasSuffix_def append_take_drop_id)
  then show "\<exists>xs. s = xs @ suf" ..
next
  assume "\<exists>xs. s = xs @ suf"
  then show "HasSuffix s suf" by (auto simp: HasSuffix_def)
qed

lemma Contains_self: "Contains s s"
  by (cases s) (simp_all add: HasPrefix_def)

lemma Contains_append: "Contains (xs @ suf) suf"
  by (induction xs) (simp_all add: Contains_self)

lemma HasSuffix_Contains: "HasSuffix s suf \<Longrightarrow> Contains s suf"
  by (auto simp: HasSuffix_iff Contains_append)

lemma HasSuffix_env_json:
  assumes "HasSuffix n ''.postman_environment.json''"
  shows "HasSuffix n ''.json''"
proof -
  from assms obtain xs where "n = xs @ ''.postman_environment.json''"
    by (auto simp: HasSuffix_iff)
  then have "n = (xs @ ''.postman_environment'') @ ''.json''" by simp
  then show ?thesis unfolding HasSuffix_iff by blast
qed

lemma scanEntry_environment:
  "(\<exists>ef. scanEntry U e (envs, cols) = (envs @ [ef], cols) \<and> ef_FileName ef = de_Name e)
     \<longleftrightarrow> \<not> de_IsDir e \<and> de_Abs e \<noteq> None
          \<and> HasSuffix (ToLower U (de_Name e)) ''.json''
          \<and> Contains (ToLower U (de_Name e)) ''.postman_environment.json''
          \<and> (\<exists>nm. de_Content e = JsonName nm)"
  by (cases "de_Content e"; cases "de_Abs e")
     (auto simp: scanEntry_def parseEnvironmentFile_def Let_def)

lemma scanEntry_collection:
  "(\<exists>cf. scanEntry U e (envs, cols) = (envs, cols @ [cf]) \<and> cf_Name cf = de_Name e)
     \<longleftrightarrow> \<not> de_IsDir e \<and> de_Abs e \<noteq> None
          \<and> HasSuffix (ToLower U (de_Name e)) ''.json''
          \<and> \<not> Contains (ToLower U (de_Name e)) ''.postman_environment.json''"
  by (cases "de_Content e"; cases "de_Abs e")
     (auto simp: scanEntry_def parseEnvironmentFile_def Let_def)

lemma scanEntry_skipped:
  "scanEntry U e (envs, cols) = (envs, cols)
     \<longleftrightarrow> de_IsDir e \<or> de_Abs e = None
          \<or> \<not> HasSuffix (ToLower U (de_Name e)) ''.json''
          \<or> (Contains (ToLower U (de_Name e)) ''.postman_environment.json''
              \<and> \<not> (\<exists>nm. de_Content e = JsonName nm))"
  by (cases "de_Content e"; cases "de_Abs e")
     (auto simp: scanEntry_def parseEnvironmentFile_def Let_def)

text \<open>
  Claim C7, as the code has it.  An entry of an included subdirectory is judged by its
  name lowered with \<open>strings.ToLower\<close>.  It is recorded as an environment file exactly
  when it is not a directory, its absolute path resolves, its lowered name ends with
  \<open>.json\<close> and contains \<open>.postman_environment.json\<close> somewhere, and its content can
  be read and decoded.  It is recorded as a collection file exactly when it is not a
  directory, its absolute path resolves, and its lowered name ends with \<open>.json\<close> and
  does not contain \<open>.postman_environment.json\<close>.  It is skipped exactly when it is a
  directory, or its absolute path does not resolve, or its lowered name does not end
  with \<open>.json\<close>, or the name contains \<open>.postman_environment.json\<close> and the content
  cannot be read or decoded.  Every lowered name that ends with
  \<open>.postman_environment.json\<close> ends with \<open>.json\<close> and contains that text.
\<close>

theorem scanEntry_classification:
  "((\<exists>ef. scanEntry U e (envs, cols) = (envs @ [ef], cols) \<and> ef_FileName ef = de_Name e)
      \<longleftrightarrow> \<not> de_IsDir e \<and> de_Abs e \<noteq> None
           \<and> HasSuffix (ToLower U (de_Name e)) ''.json''
           \<and> Contains (ToLower U (de_Name e)) ''.postman_environment.json''
           \<and> (\<exists>nm. de_Content e = JsonName nm))
   \<and> ((\<exists>cf. scanEntry U e (envs, cols) = (envs, cols @ [cf]) \<and> cf_Name cf = de_Name e)
      \<longleftrightarrow> \<not> de_IsDir e \<and> de_Abs e \<noteq> None
           \<and> HasSuffix (ToLower U (de_Name e)) ''.json''
           \<and> \<not> Contains (ToLower U (de_Name e)) ''.postman_environment.json'')
   \<and> (scanEntry U e (envs, cols) = (envs, cols)
      \<longleftrightarrow> de_IsDir e \<or> de_Abs e = None
           \<or> \<not> HasSuffix (ToLower U (de_Name e)) ''.json''
           \<or> (Contains (ToLower U (de_Name e)) ''.postman_environment.json''
               \<and> \<not> (\<exists>nm. de_Content e = JsonName nm)))
   \<and> (HasSuffix (ToLower U (de_Name e)) ''.postman_environment.json''
      \<longrightarrow> HasSuffix (ToLower U (de_Name e)) ''.json''
           \<and> Contains (ToLower U (de_Name e)) ''.postman_environment.json'')"
  using scanEntry_environment[of U e envs cols] scanEntry_collection[of U e envs cols]
    scanEntry_skipped[of U e envs cols]
    HasSuffix_env_json[of "ToLower U (de_Name e)"]
    HasSuffix_Contains[of "ToLower U (de_Name e)" "''.postman_environment.json''"]
  by blast

text \<open>
  An environment file whose name carries the suffix in capital letters, and the same
  file with content that cannot be decoded.
\<close>

theorem scanEntry_classification_witness:
  "\<forall>U. HasSuffix (ToLower U ''Dev.Postman_Environment.JSON'') ''.postman_environment.json''
     \<and> scanEntry U \<lparr> de_Name = ''Dev.Postman_Environment.JSON'', de_IsDir = False,
                      de_Abs = Some ''/c/billing/Dev.Postman_Environment.JSON'',
                      de_Rel = None, de_Content = JsonName ''dev'' \<rparr> ([], [])
         \<noteq> ([], [])
     \<and> scanEntry U \<lparr> de_Name = ''Dev.Postman_Environment.JSON'', de_IsDir = False,
                      de_Abs = Some ''/c/billing/Dev.Postman_Environment.JSON'',
                      de_Rel = None, de_Content = JsonInvalid \<rparr> ([], [])
         = ([], [])"
proof
  fix U
  let ?e = "\<lparr> de_Name = ''Dev.Postman_Environment.JSON'', de_IsDir = False,
              de_Abs = Some ''/c/billing/Dev.Postman_Environment.JSON'',
              de_Rel = None, de_Content = JsonName ''dev'' \<rparr>"
  let ?f = "\<lparr> de_Name = ''Dev.Postman_Environment.JSON'', de_IsDir = False,
              de_Abs = Some ''/c/billing/Dev.Postman_Environment.JSON'',
              de_Rel = None, de_Content = JsonInvalid \<rparr>"
  have s: "HasSuffix (ToLower U ''Dev.Postman_Environment.JSON'') ''.postman_environment.json''"
    by (simp add: HasSuffix_def ToLower_def isASCII_def toLower_char_def)
  from scanEntry_classification[of U ?e "[]" "[]"] s
  have a: "scanEntry U ?e ([], []) \<noteq> ([], [])" by simp
  from scanEntry_classification[of U ?f "[]" "[]"] s
  have b: "scanEntry U ?f ([], []) = ([], [])" by simp
  from s a b show "HasSuffix (ToLower U ''Dev.Postman_Environment.JSON'')
          ''.postman_environment.json''
     \<and> scanEntry U ?e ([], []) \<noteq> ([], [])
     \<and> scanEntry U ?f ([], []) = ([], [])"
    by blast
qed

text \<open>
  Claim C7 as stated fails: a name that contains \<open>.postman_environment.json\<close> but does
  not end with it is still taken as an environment file, not as a collection file.
\<close>

theorem scanEntry_contains_counterexample:
  "\<forall>U. \<not> HasSuffix (ToLower U ''dev.postman_environment.json.old.json'')
            ''.postman_environment.json''
     \<and> scanEntry U \<lparr> de_Name = ''dev.postman_environment.json.old.json'', de_IsDir = False,
                    de_Abs = Some ''/c/billing/dev.postman_environment.json.old.json'',
                    de_Rel = Some ''billing/dev.postman_environment.json.old.json'',
                    de_Content = JsonName ''dev'' \<rparr> ([], [])
         = ([\<lparr> ef_Name = ''dev'', ef_FileName = ''dev.postman_environment.json.old.json'',
                ef_Path = ''billing/dev.postman_environment.json.old.json'',
                ef_FullPath = ''/c/billing/dev.postman_environment.json.old.json'' \<rparr>], [])"
  by (simp add: scanEntry_def parseEnvironmentFile_def Let_def HasSuffix_def ToLower_def
      isASCII_def toLower_char_def HasPrefix_def)

subsection \<open>Grouping\<close>

lemma fold_envGroupStep_PerIteration:
  "fold (envGroupStep PerIteration c d cols) envs (h, gs)
     = (h @ envs,
        gs @ map (\<lambda>i. \<lparr> g_Directory = d, g_Environment = Some (length h + i),
                          g_Collections = cols \<rparr>) [0..<length envs])"
proof (induction envs arbitrary: h gs)
  case Nil
  then show ?case by simp
next
  case (Cons e envs)
  have "map (\<lambda>i. \<lparr> g_Directory = d, g_Environment = Some (length h + i),
                    g_Collections = cols \<rparr>) [0..<Suc (length envs)]
        = \<lparr> g_Directory = d, g_Environment = Some (length h), g_Collections = cols \<rparr>
          # map (\<lambda>i. \<lparr> g_Directory = d, g_Environment = Some (Suc (length h) + i),
                          g_Collections = cols \<rparr>) [0..<length envs]"
    by (simp add: upt_conv_Cons map_Suc_upt[symmetric] del: upt_Suc)
  with Cons show ?case by (simp add: envGroupStep_def)
qed

lemma fold_envGroupStep_PerLoop:
  "c < length h \<Longrightarrow> fold (envGroupStep PerLoop c d cols) envs (h, gs)
     = (if envs = [] then h else h[c := last envs],
        gs @ replicate (length envs)
               \<lparr> g_Directory = d, g_Environment = Some c, g_Collections = cols \<rparr>)"
proof (induction envs arbitrary: h gs)
  case Nil
  then show ?case by simp
next
  case (Cons e envs)
  then show ?case by (simp add: envGroupStep_def replicate_app_Cons_same)
qed

lemma makeGroups_PerIteration:
  assumes "envs \<noteq> []"
  shows "makeGroups PerIteration h d envs cols
     = (h @ envs,
        map (\<lambda>i. \<lparr> g_Directory = d, g_Environment = Some (length h + i),
                     g_Collections = cols \<rparr>) [0..<length envs])"
  using assms by (simp add: makeGroups_def fold_envGroupStep_PerIteration)

lemma makeGroups_PerLoop:
  assumes "envs \<noteq> []"
  shows "makeGroups PerLoop h d envs cols
     = (h @ [last envs],
        replicate (length envs)
          \<lparr> g_Directory = d, g_Environment = Some (length h), g_Collections = cols \<rparr>)"
  using assms by (simp add: makeGroups_def fold_envGroupStep_PerLoop)

lemma makeGroups_no_environment:
  "makeGroups lv h d [] cols
     = (h, if cols = [] then []
           else [\<lparr> g_Directory = d, g_Environment = None, g_Collections = cols \<rparr>])"
  by (simp add: makeGroups_def)

text \<open>
  With one loop variable per iteration the groups of a directory are as claim C5 says:
  as many groups as environments, the i-th group paired with the i-th environment,
  each with all the collection files.
\<close>

lemma makeGroups_PerIteration_environments:
  assumes "envs \<noteq> []" and "makeGroups PerIteration h d envs cols = (h', gs)"
  shows "map (groupEnv h') gs = map Some envs \<and> length gs = length envs
         \<and> (\<forall>g \<in> set gs. g_Collections g = cols \<and> g_Directory g = d)"
proof -
  from assms have h': "h' = h @ envs"
    and gs: "gs = map (\<lambda>i. \<lparr> g_Directory = d, g_Environment = Some (length h + i),
                     g_Collections = cols \<rparr>) [0..<length envs]"
    by (simp_all add: makeGroups_PerIteration)
  have "map (groupEnv h') gs = map (\<lambda>i. Some (envs ! i)) [0..<length envs]"
    unfolding h' gs by (simp add: groupEnv_def nth_append)
  also have "\<dots> = map Some (map ((!) envs) [0..<length envs])"
    by (simp add: comp_def)
  also have "\<dots> = map Some envs"
    by (simp only: map_nth)
  finally have a: "map (groupEnv h') gs = map Some envs" .
  have b: "length gs = length envs" unfolding gs by simp
  have c: "\<forall>g \<in> set gs. g_Collections g = cols \<and> g_Directory g = d"
    unfolding gs by (simp add: image_iff)
  from a b c show ?thesis by blast
qed

text \<open>
  With one loop variable for the whole loop every group of the directory refers to the
  same cell, which holds the last environment when the loop has ended.
\<close>

lemma makeGroups_PerLoop_environments:
  assumes "envs \<noteq> []" and "makeGroups PerLoop h d envs cols = (h', gs)"
  shows "map (groupEnv h') gs = replicate (length envs) (Some (last envs))
         \<and> length gs = length envs
         \<and> (\<forall>g \<in> set gs. g_Collections g = cols \<and> g_Directory g = d)"
  using assms by (auto simp: makeGroups_PerLoop groupEnv_def)

lemma ex_billing_scan:
  "fold (scanEntry U) ex_billing_entries ([], []) = ([ex_a_env, ex_b_env], [ex_x_col])"
  by (simp add: ex_billing_entries_def ex_a_env_def ex_b_env_def ex_x_col_def scanEntry_def
      parseEnvironmentFile_def Let_def HasSuffix_def ToLower_def isASCII_def toLower_char_def HasPrefix_def
      TrimSuffix_def)

text \<open>
  Claim C5 at a directory with the two distinct environments a and b and one
  collection file, compiled with one loop variable per loop (Go before 1.22): two
  groups are emitted, both refer to the same heap cell, and that cell holds
  environment b.  No group is paired with environment a.
\<close>

theorem scanSubdirectory_shared_loop_variable:
  "scanSubdirectory U PerLoop [] (Some ex_billing_entries) ''billing''
     = Inr ([ex_b_env],
            [\<lparr> g_Directory = ''billing'', g_Environment = Some 0, g_Collections = [ex_x_col] \<rparr>,
             \<lparr> g_Directory = ''billing'', g_Environment = Some 0, g_Collections = [ex_x_col] \<rparr>])
   \<and> groupEnv [ex_b_env]
        \<lparr> g_Directory = ''billing'', g_Environment = Some 0, g_Collections = [ex_x_col] \<rparr>
       = Some ex_b_env
   \<and> ex_a_env \<noteq> ex_b_env"
  by (simp add: scanSubdirectory_def ex_billing_scan makeGroups_PerLoop groupEnv_def)
     (simp add: ex_a_env_def ex_b_env_def)

text \<open>The same directory with one loop variable per iteration (Go 1.22 and later).\<close>

lemma scanSubdirectory_own_loop_variable:
  "scanSubdirectory U PerIteration [] (Some ex_billing_entries) ''billing''
     = Inr ([ex_a_env, ex_b_env],
            [\<lparr> g_Directory = ''billing'', g_Environment = Some 0, g_Collections = [ex_x_col] \<rparr>,
             \<lparr> g_Directory = ''billing'', g_Environment = Some 1, g_Collections = [ex_x_col] \<rparr>])"
  by (simp add: scanSubdirectory_def ex_billing_scan makeGroups_PerIteration upt_conv_Cons)

section \<open>The key at dispatch time against the key at read time\<close>

lemma ex_prod_scan: "ScanGroups U lv ex_prod_root = Inr ([ex_prod_env], [ex_prod_group])"
  by (cases lv)
     (simp_all add: ScanGroups_def ex_prod_root_def scanRootEntry_def HasPrefix_def
      scanSubdirectory_def scanEntry_def parseEnvironmentFile_def Let_def HasSuffix_def
      ToLower_def isASCII_def toLower_char_def makeGroups_def envGroupStep_def ex_prod_env_def
      ex_prod_group_def ex_checkout_col_def)

text \<open>
  Claim C2 at a scanned group whose environment file \<open>prod.postman_environment.json\<close>
  names its environment \<open>Production\<close>: the execution unit records the collection
  under the key \<open>billing_prod_checkout\<close>, the results handler looks it up under
  \<open>billing_production_checkout\<close>.
\<close>

theorem key_drift_named_environment:
  "ScanGroups U PerLoop ex_prod_root = Inr ([ex_prod_env], [ex_prod_group])
   \<and> ScanGroups U PerIteration ex_prod_root = Inr ([ex_prod_env], [ex_prod_group])
   \<and> dispatchKey U (dispatchArgs [ex_prod_env] ex_prod_group ex_checkout_col)
       = (''billing_prod_checkout'', ''billing'', ''prod'', ''checkout'')
   \<and> readKey U [ex_prod_env] ex_prod_group ex_checkout_col
       = (''billing_production_checkout'', ''billing'', ''production'', ''checkout'')"
  by (simp add: ex_prod_scan)
     (simp add: dispatchKey_def dispatchArgs_def readKey_def groupEnv_def ex_prod_env_def
      ex_prod_group_def ex_checkout_col_def GenerateCompositeKey_def Let_def TrimSuffix_def
      HasSuffix_def ToLower_def isASCII_def toLower_char_def Base_def)

text \<open>
  The two keys agree when the group has no environment, or when the environment's
  resolved name and file name are written in ASCII and the resolved name equals, up to
  letter case, the file name without the suffix
  \<open>.postman_environment.json\<close>; this is so whenever the content of the environment
  file has no name.
\<close>

lemma readKey_eq_dispatchKey:
  assumes "case groupEnv h g of
             None \<Rightarrow> True
           | Some ef \<Rightarrow> isASCII (ef_Name ef) \<and> isASCII (ef_FileName ef)
                        \<and> ToLower U (ef_Name ef)
                            = ToLower U (TrimSuffix (ef_FileName ef)
                                           ''.postman_environment.json'')"
  shows "readKey U h g col = dispatchKey U (dispatchArgs h g col)"
proof (cases "groupEnv h g")
  case None
  then show ?thesis by (simp add: readKey_def dispatchKey_def dispatchArgs_def)
next
  case (Some ef)
  with assms have a: "isASCII (ef_Name ef)"
    and b: "isASCII (TrimSuffix (ef_FileName ef) ''.postman_environment.json'')"
    and l: "ToLower U (ef_Name ef)
      = ToLower U (TrimSuffix (ef_FileName ef) ''.postman_environment.json'')"
    by (simp_all add: isASCII_TrimSuffix)
  from ToLower_empty[OF a b l] l Some show ?thesis
    by (simp add: readKey_def dispatchKey_def dispatchArgs_def GenerateCompositeKey_def Let_def)
qed

lemma parseEnvironmentFile_unnamed:
  "parseEnvironmentFile fullPath filename relPath (JsonName []) = Inr ef
     \<Longrightarrow> ef_Name ef = TrimSuffix (ef_FileName ef) ''.postman_environment.json''"
  by (auto simp: parseEnvironmentFile_def)

section \<open>Properties of the store queries\<close>

lemma set_distinctOn: "set (distinctOn f xs) \<subseteq> set xs"
  by (induction f xs rule: distinctOn.induct) auto

lemma image_distinctOn: "f ` set (distinctOn f xs) = f ` set xs"
  by (induction f xs rule: distinctOn.induct) auto

lemma distinct_distinctOn: "distinct (map f (distinctOn f xs))"
proof (induction f xs rule: distinctOn.induct)
  case (1 f)
  then show ?case by simp
next
  case (2 f x xs)
  have "f x \<notin> f ` set (distinctOn f (filter (\<lambda>y. f y \<noteq> f x) xs))"
    unfolding image_distinctOn by auto
  with 2 show ?case by simp
qed

lemma distinctOn_first:
  assumes "sorted (map (\<lambda>e. (f e, g e)) xs)"
      and "e \<in> set (distinctOn f xs)" and "e' \<in> set xs" and "f e' = f e"
  shows "g e \<le> g e'"
  using assms
proof (induction f xs rule: distinctOn.induct)
  case (1 f)
  then show ?case by simp
next
  case (2 f x xs)
  from 2(2) have hd: "\<forall>y \<in> set xs. (f x, g x) \<le> (f y, g y)" by simp
  show ?case
  proof (cases "e = x")
    case True
    show ?thesis
    proof (cases "e' = x")
      case True
      with \<open>e = x\<close> show ?thesis by simp
    next
      case False
      with 2(4) have "e' \<in> set xs" by simp
      with hd have "(f x, g x) \<le> (f e', g e')" by blast
      with 2(5) \<open>e = x\<close> show ?thesis by (simp add: less_eq_prod_def)
    qed
  next
    case False
    with 2(3) have e: "e \<in> set (distinctOn f (filter (\<lambda>y. f y \<noteq> f x) xs))" by simp
    with set_distinctOn[of f "filter (\<lambda>y. f y \<noteq> f x) xs"] have fe: "f e \<noteq> f x" by auto
    with 2(4,5) have e': "e' \<in> set (filter (\<lambda>y. f y \<noteq> f x) xs)" by auto
    from 2(2) have "sorted (map (\<lambda>e. (f e, g e)) (filter (\<lambda>y. f y \<noteq> f x) xs))"
      by (simp add: sorted_filter)
    from 2(1)[OF this e e' 2(5)] show ?thesis .
  qed
qed

lemma filter_key_distinct:
  "distinct (map f xs) \<Longrightarrow> x \<in> set xs \<Longrightarrow> filter (\<lambda>y. f y = f x) xs = [x]"
proof (induction xs)
  case Nil
  then show ?case by simp
next
  case (Cons a xs)
  show ?case
  proof (cases "a = x")
    case True
    with Cons(2) have "\<forall>y \<in> set xs. f y \<noteq> f x" by (auto simp: image_iff)
    then have "filter (\<lambda>y. f y = f x) xs = []" by (simp add: filter_empty_conv)
    with True show ?thesis by simp
  next
    case False
    with Cons have "x \<in> set xs" "distinct (map f xs)" by auto
    with Cons(1) have ih: "filter (\<lambda>y. f y = f x) xs = [x]" by simp
    from Cons(2) \<open>x \<in> set xs\<close> have "f a \<noteq> f x" by (auto simp: image_iff)
    with ih show ?thesis by simp
  qed
qed

lemma distinct_map_sort_key: "distinct (map f (sort_key g xs)) = distinct (map f xs)"
proof -
  have "mset (map f (sort_key g xs)) = mset (map f xs)" by simp
  then show ?thesis by (rule mset_eq_imp_distinct_iff)
qed

lemma set_latest: "set (latest_test_executions db) \<subseteq> set (test_executions db)"
  unfolding latest_test_executions_def using set_distinctOn[of te_CollectionID] by fastforce

lemma set_GetLatestExecutions: "set (GetLatestExecutions db) = set (latest_test_executions db)"
  by (simp add: GetLatestExecutions_def)

lemma ids_GetLatestExecutions:
  "te_CollectionID ` set (GetLatestExecutions db) = te_CollectionID ` set (test_executions db)"
  by (simp add: GetLatestExecutions_def latest_test_executions_def image_distinctOn)

lemma distinct_GetLatestExecutions: "distinct (map te_CollectionID (GetLatestExecutions db))"
  by (simp add: GetLatestExecutions_def distinct_map_sort_key latest_test_executions_def
      distinct_distinctOn)

lemma latest_greatest:
  assumes "e \<in> set (GetLatestExecutions db)" and "e' \<in> set (test_executions db)"
      and "te_CollectionID e' = te_CollectionID e"
  shows "te_StartedAt e' \<le> te_StartedAt e"
proof -
  let ?xs = "sort_key (\<lambda>e. (te_CollectionID e, - te_StartedAt e)) (test_executions db)"
  have s: "sorted (map (\<lambda>e. (te_CollectionID e, - te_StartedAt e)) ?xs)"
    by (rule sorted_sort_key)
  from assms(1) have e: "e \<in> set (distinctOn te_CollectionID ?xs)"
    by (simp add: GetLatestExecutions_def latest_test_executions_def)
  from assms(2) have e': "e' \<in> set ?xs" by simp
  from distinctOn_first[OF s e e' assms(3)] show ?thesis by simp
qed

text \<open>
  Claim C3, as the code has it.  For every collection with at least one persisted
  execution, the latest-executions query returns exactly one execution of that
  collection; it is a persisted execution, and no persisted execution of the collection
  has a greater \<open>started_at\<close>.  The view orders by \<open>started_at\<close> only: among
  executions that share the greatest \<open>started_at\<close> the choice is left to the order in
  which the store delivers the rows.
\<close>

theorem GetLatestExecutions_greatest_started_at:
  assumes "e0 \<in> set (test_executions db)"
  shows "\<exists>e. filter (\<lambda>x. te_CollectionID x = te_CollectionID e0) (GetLatestExecutions db) = [e]
             \<and> e \<in> set (test_executions db)
             \<and> (\<forall>e' \<in> set (test_executions db).
                   te_CollectionID e' = te_CollectionID e0 \<longrightarrow> te_StartedAt e' \<le> te_StartedAt e)"
proof -
  from assms have "te_CollectionID e0 \<in> te_CollectionID ` set (GetLatestExecutions db)"
    unfolding ids_GetLatestExecutions by blast
  then obtain e where e: "e \<in> set (GetLatestExecutions db)"
    and id: "te_CollectionID e = te_CollectionID e0" by auto
  from filter_key_distinct[OF distinct_GetLatestExecutions e]
  have "filter (\<lambda>x. te_CollectionID x = te_CollectionID e0) (GetLatestExecutions db) = [e]"
    by (simp add: id)
  moreover from e set_latest have "e \<in> set (test_executions db)"
    unfolding set_GetLatestExecutions by blast
  moreover have "\<forall>e' \<in> set (test_executions db).
                   te_CollectionID e' = te_CollectionID e0 \<longrightarrow> te_StartedAt e' \<le> te_StartedAt e"
    using latest_greatest[OF e] id by simp
  ultimately show ?thesis by blast
qed

theorem GetLatestExecutions_greatest_started_at_witness:
  "ex_execution 1 7 10 5 2 \<in> set (test_executions ex_db1)
   \<and> length (filter (\<lambda>x. te_CollectionID x = 7) (GetLatestExecutions ex_db1)) = 1"
proof -
  have m: "ex_execution 1 7 10 5 2 \<in> set (test_executions ex_db1)"
    by (simp add: ex_db1_def ex_store_def)
  have i: "te_CollectionID (ex_execution 1 7 10 5 2) = 7"
    by (simp add: ex_execution_def)
  from GetLatestExecutions_greatest_started_at[OF m] obtain e where
    "filter (\<lambda>x. te_CollectionID x = 7) (GetLatestExecutions ex_db1) = [e]"
    unfolding i by blast
  with m show ?thesis by simp
qed


text \<open>
  Claim C3 as stated fails on ties: of two executions of one collection with the same
  \<open>started_at\<close>, the query returns the one the store delivers first, whatever the
  ids.  With the row of id 1 first it returns id 1, not the greatest id.
\<close>

theorem GetLatestExecutions_tie_counterexample:
  "GetLatestExecutions (ex_store [] [ex_execution 1 7 100 5 0, ex_execution 2 7 100 5 0])
     = [ex_execution 1 7 100 5 0]
   \<and> GetLatestExecutions (ex_store [] [ex_execution 2 7 100 5 0, ex_execution 1 7 100 5 0])
     = [ex_execution 2 7 100 5 0]
   \<and> te_StartedAt (ex_execution 1 7 100 5 0) = te_StartedAt (ex_execution 2 7 100 5 0)
   \<and> te_ID (ex_execution 1 7 100 5 0) < te_ID (ex_execution 2 7 100 5 0)"
  by (simp add: GetLatestExecutions_def latest_test_executions_def ex_store_def
      ex_execution_def)

lemma sort_key_Nil_iff: "sort_key k q = [] \<longleftrightarrow> q = []"
proof -
  have "length (sort_key k q) = length q" by simp
  then show ?thesis by (metis length_0_conv)
qed

lemma GetLastSuccessfulExecution_None:
  "GetLastSuccessfulExecution db cid = None
     \<longleftrightarrow> \<not> (\<exists>e \<in> set (test_executions db).
              te_CollectionID e = cid \<and> te_FailedTests e = 0 \<and> 0 < te_TotalTests e)"
proof -
  let ?P = "\<lambda>e. te_CollectionID e = cid \<and> te_FailedTests e = 0 \<and> 0 < te_TotalTests e"
  have "GetLastSuccessfulExecution db cid = None
          \<longleftrightarrow> sort_key (\<lambda>e. - te_StartedAt e) (filter ?P (test_executions db)) = []"
    unfolding GetLastSuccessfulExecution_def by (simp split: list.splits)
  also have "\<dots> \<longleftrightarrow> filter ?P (test_executions db) = []"
    by (rule sort_key_Nil_iff)
  also have "\<dots> \<longleftrightarrow> \<not> (\<exists>e \<in> set (test_executions db). ?P e)"
    unfolding filter_empty_conv by blast
  finally show ?thesis .
qed

lemma sort_key_head_least:
  assumes "sort_key k q = e # rest"
  shows "e \<in> set q \<and> (\<forall>y \<in> set q. k e \<le> k y)"
proof -
  have "set (sort_key k q) = set q" by simp
  with assms have sub: "set q = insert e (set rest)" by simp
  have "sorted (map k (sort_key k q))" by (rule sorted_sort_key)
  with assms have "\<forall>y \<in> set rest. k e \<le> k y" by simp
  with sub show ?thesis by simp
qed

lemma GetLastSuccessfulExecution_Some:
  assumes "GetLastSuccessfulExecution db cid = Some e"
  shows "e \<in> set (test_executions db) \<and> te_CollectionID e = cid
         \<and> te_FailedTests e = 0 \<and> 0 < te_TotalTests e
         \<and> (\<forall>e' \<in> set (test_executions db).
               te_CollectionID e' = cid \<and> te_FailedTests e' = 0 \<and> 0 < te_TotalTests e'
               \<longrightarrow> te_StartedAt e' \<le> te_StartedAt e)"
proof -
  let ?P = "\<lambda>e. te_CollectionID e = cid \<and> te_FailedTests e = 0 \<and> 0 < te_TotalTests e"
  from assms obtain rest where
    s: "sort_key (\<lambda>e. - te_StartedAt e) (filter ?P (test_executions db)) = e # rest"
    unfolding GetLastSuccessfulExecution_def by (simp split: list.splits)
  from sort_key_head_least[OF s]
  have mem: "e \<in> set (filter ?P (test_executions db))"
    and le: "\<forall>y \<in> set (filter ?P (test_executions db)). - te_StartedAt e \<le> - te_StartedAt y"
    by blast+
  from mem have m: "e \<in> set (test_executions db)" "?P e" by simp_all
  have "\<forall>e' \<in> set (test_executions db). ?P e' \<longrightarrow> te_StartedAt e' \<le> te_StartedAt e"
  proof (intro ballI impI)
    fix e' assume "e' \<in> set (test_executions db)" "?P e'"
    then have "e' \<in> set (filter ?P (test_executions db))" by simp
    with le have "- te_StartedAt e \<le> - te_StartedAt e'" by blast
    then show "te_StartedAt e' \<le> te_StartedAt e" by simp
  qed
  with m show ?thesis by blast
qed

lemma find_Some_D: "find P xs = Some x \<Longrightarrow> P x \<and> x \<in> set xs"
  by (induction xs) (auto split: if_splits)

lemma collectionResultStep_elem:
  assumes "collectionResultStep lv db allc x (h, crs) = (h', crs')" and "cr \<in> set crs'"
  shows "cr \<in> set crs \<or> resultOf db allc x cr"
proof (cases "find (\<lambda>col. c_ID col = te_CollectionID x) allc")
  case None
  with assms show ?thesis
    by (cases lv) (auto simp: collectionResultStep_def)
next
  case (Some col)
  from find_Some_D[OF Some] have "col \<in> set allc" "c_ID col = te_CollectionID x" by simp_all
  with Some assms show ?thesis
    by (cases lv) (auto simp: collectionResultStep_def resultOf_def)
qed

lemma fold_collectionResultStep:
  assumes "cr \<in> set (snd (fold (collectionResultStep lv db allc) execs (h, crs)))"
  shows "cr \<in> set crs \<or> (\<exists>exec \<in> set execs. resultOf db allc exec cr)"
  using assms
proof (induction execs arbitrary: h crs)
  case Nil
  then show ?case by simp
next
  case (Cons x execs)
  obtain h' crs' where st: "collectionResultStep lv db allc x (h, crs) = (h', crs')"
    by (cases "collectionResultStep lv db allc x (h, crs)")
  with Cons(2) have "cr \<in> set (snd (fold (collectionResultStep lv db allc) execs (h', crs')))"
    by simp
  from Cons(1)[OF this] show ?case
  proof
    assume "cr \<in> set crs'"
    from collectionResultStep_elem[OF st this] show ?thesis by auto
  next
    assume "\<exists>exec \<in> set execs. resultOf db allc exec cr"
    then show ?thesis by auto
  qed
qed

lemma buildCollectionResults_elem:
  assumes "cr \<in> set (snd (buildCollectionResults lv db))"
  shows "\<exists>exec \<in> set (GetLatestExecutions db). resultOf db (GetAllCollections db) exec cr"
  using fold_collectionResultStep[OF assms[unfolded buildCollectionResults_def]] by simp

lemma fold_groupStep:
  "fold groupStep crs m k =
     (if filter (\<lambda>cr. groupKeyOf cr = k) crs = [] then m k
      else Some ((case m k of None \<Rightarrow> [] | Some rs \<Rightarrow> rs)
                 @ filter (\<lambda>cr. groupKeyOf cr = k) crs))"
proof (induction crs arbitrary: m)
  case Nil
  then show ?case by simp
next
  case (Cons c crs)
  have "fold groupStep (c # crs) m k = fold groupStep crs (groupStep c m) k" by simp
  also have "\<dots> = (if filter (\<lambda>cr. groupKeyOf cr = k) crs = [] then groupStep c m k
      else Some ((case groupStep c m k of None \<Rightarrow> [] | Some rs \<Rightarrow> rs)
                 @ filter (\<lambda>cr. groupKeyOf cr = k) crs))"
    by (rule Cons)
  also have "\<dots> = (if filter (\<lambda>cr. groupKeyOf cr = k) (c # crs) = [] then m k
      else Some ((case m k of None \<Rightarrow> [] | Some rs \<Rightarrow> rs)
                 @ filter (\<lambda>cr. groupKeyOf cr = k) (c # crs)))"
    unfolding groupStep_def Let_def by (cases "groupKeyOf c = k") simp_all
  finally show ?case .
qed

lemma groupMap_lookup:
  "fold groupStep crs Map.empty k =
     (if k \<in> groupKeyOf ` set crs then Some (filter (\<lambda>cr. groupKeyOf cr = k) crs) else None)"
proof (cases "filter (\<lambda>cr. groupKeyOf cr = k) crs = []")
  case True
  then have "k \<notin> groupKeyOf ` set crs" by (auto simp: filter_empty_conv)
  with True show ?thesis by (simp add: fold_groupStep)
next
  case False
  then have "k \<in> groupKeyOf ` set crs" by (auto simp: filter_empty_conv)
  with False show ?thesis by (simp add: fold_groupStep)
qed

lemma set_rangeMap: "(k, v) \<in> set (rangeMap order m) \<longleftrightarrow> k \<in> set order \<and> m k = Some v"
  unfolding rangeMap_def by (induction order) (auto split: option.splits)

section \<open>Properties of the aggregation\<close>

lemmas ex_store_defs = ex_db1_def ex_db2_def ex_store_def ex_collection_def ex_execution_def

lemmas query_defs =
  GetLatestResults_def buildCollectionResults_def GetAllCollections_def
  GetLatestExecutions_def latest_test_executions_def collectionResultStep_def
  GetLastSuccessfulExecution_def GetTestResultsByExecutionID_def groupStep_def
  groupKeyOf_def rangeMap_def makeEnvironmentGroup_def Let_def

lemma GetLatestResults_unfold:
  "GetLatestResults lv order now db =
     (fst (buildCollectionResults lv db),
      \<lparr> lr_EnvironmentGroups =
          map (\<lambda>(key, rs). makeEnvironmentGroup key rs)
            (rangeMap order (fold groupStep (snd (buildCollectionResults lv db)) Map.empty)),
        lr_UpdatedAt = now \<rparr>)"
  by (simp add: GetLatestResults_def Let_def split: prod.splits)

lemma GetLatestResults_group:
  assumes "eg \<in> set (lr_EnvironmentGroups (snd (GetLatestResults lv order now db)))"
  shows "\<exists>k \<in> set order. k \<in> groupKeyOf ` set (snd (buildCollectionResults lv db))
           \<and> eg = makeEnvironmentGroup k
                    (filter (\<lambda>cr. groupKeyOf cr = k) (snd (buildCollectionResults lv db)))"
proof -
  let ?crs = "snd (buildCollectionResults lv db)"
  from assms obtain k rs where
    kr: "(k, rs) \<in> set (rangeMap order (fold groupStep ?crs Map.empty))"
    and eg: "eg = makeEnvironmentGroup k rs"
    unfolding GetLatestResults_unfold by auto
  from kr have ko: "k \<in> set order" and m: "fold groupStep ?crs Map.empty k = Some rs"
    by (simp_all add: set_rangeMap)
  from m have "k \<in> groupKeyOf ` set ?crs" and "rs = filter (\<lambda>cr. groupKeyOf cr = k) ?crs"
    by (simp_all add: groupMap_lookup split: if_splits)
  with ko eg show ?thesis by blast
qed

lemma eg_Collections_makeEnvironmentGroup [simp]:
  "eg_Collections (makeEnvironmentGroup k rs) = rs"
  by (cases k) (simp add: makeEnvironmentGroup_def)

lemma GetLatestResults_elem:
  assumes "eg \<in> set (lr_EnvironmentGroups (snd (GetLatestResults lv order now db)))"
      and "cr \<in> set (eg_Collections eg)"
  shows "cr \<in> set (snd (buildCollectionResults lv db))"
  using GetLatestResults_group[OF assms(1)] assms(2) by auto

text \<open>
  Claim C8.  For every result that \<open>GetLatestResults\<close> reports, whatever the
  loop-variable semantics and the iteration order: when the last success is null, the
  result's collection has no persisted execution with \<open>total_tests > 0\<close> and
  \<open>failed_tests = 0\<close>; otherwise it is a persisted execution of that collection with
  \<open>total_tests > 0\<close> and \<open>failed_tests = 0\<close>, and no such execution of the collection
  has a greater \<open>started_at\<close>.  For the executions E1 (2 of 5 failed, at t1),
  E2 (0 of 5 failed, at t2) and E3 (no tests, at t3) with t1 < t2 < t3 the last success
  is E2.
\<close>

theorem GetLatestResults_last_success:
  assumes "eg \<in> set (lr_EnvironmentGroups (snd (GetLatestResults lv order now db)))"
      and "cr \<in> set (eg_Collections eg)"
  shows "(case cr_LastSuccessExecution cr of
            None \<Rightarrow>
              \<not> (\<exists>e \<in> set (test_executions db).
                    te_CollectionID e = c_ID (cr_Collection cr)
                    \<and> te_FailedTests e = 0 \<and> 0 < te_TotalTests e)
          | Some s \<Rightarrow>
              s \<in> set (test_executions db) \<and> te_CollectionID s = c_ID (cr_Collection cr)
              \<and> te_FailedTests s = 0 \<and> 0 < te_TotalTests s
              \<and> (\<forall>e \<in> set (test_executions db).
                    te_CollectionID e = c_ID (cr_Collection cr)
                    \<and> te_FailedTests e = 0 \<and> 0 < te_TotalTests e
                    \<longrightarrow> te_StartedAt e \<le> te_StartedAt s))
         \<and> (t1 < t2 \<and> t2 < t3 \<longrightarrow>
              GetLastSuccessfulExecution
                (ex_store cs [ex_execution 1 7 t1 5 2, ex_execution 2 7 t2 5 0,
                              ex_execution 3 7 t3 0 0]) 7
                = Some (ex_execution 2 7 t2 5 0))"
proof -
  from GetLatestResults_elem[OF assms] have "cr \<in> set (snd (buildCollectionResults lv db))" .
  from buildCollectionResults_elem[OF this] obtain exec where
    "resultOf db (GetAllCollections db) exec cr" ..
  then have id: "c_ID (cr_Collection cr) = te_CollectionID exec"
    and l: "cr_LastSuccessExecution cr = GetLastSuccessfulExecution db (te_CollectionID exec)"
    by (simp_all add: resultOf_def)
  have general: "(case cr_LastSuccessExecution cr of
            None \<Rightarrow>
              \<not> (\<exists>e \<in> set (test_executions db).
                    te_CollectionID e = c_ID (cr_Collection cr)
                    \<and> te_FailedTests e = 0 \<and> 0 < te_TotalTests e)
          | Some s \<Rightarrow>
              s \<in> set (test_executions db) \<and> te_CollectionID s = c_ID (cr_Collection cr)
              \<and> te_FailedTests s = 0 \<and> 0 < te_TotalTests s
              \<and> (\<forall>e \<in> set (test_executions db).
                    te_CollectionID e = c_ID (cr_Collection cr)
                    \<and> te_FailedTests e = 0 \<and> 0 < te_TotalTests e
                    \<longrightarrow> te_StartedAt e \<le> te_StartedAt s))"
  proof (cases "cr_LastSuccessExecution cr")
    case None
    with l have "GetLastSuccessfulExecution db (c_ID (cr_Collection cr)) = None"
      by (simp add: id)
    with None show ?thesis by (simp add: GetLastSuccessfulExecution_None)
  next
    case (Some s)
    with l have "GetLastSuccessfulExecution db (c_ID (cr_Collection cr)) = Some s"
      by (simp add: id)
    from GetLastSuccessfulExecution_Some[OF this] Some show ?thesis by simp
  qed
  have example: "GetLastSuccessfulExecution
                (ex_store cs [ex_execution 1 7 t1 5 2, ex_execution 2 7 t2 5 0,
                              ex_execution 3 7 t3 0 0]) 7
                = Some (ex_execution 2 7 t2 5 0)"
    by (simp add: GetLastSuccessfulExecution_def ex_store_def ex_execution_def)
  from general example show ?thesis by blast
qed

lemma ex_db1_results:
  "GetLatestResults PerIteration [(''billing'', ''prod'')] 0 ex_db1
     = ([ex_execution 3 7 30 0 0],
        \<lparr> lr_EnvironmentGroups =
            [\<lparr> eg_Environment =
                  Some \<lparr> ei_Name = ''prod'', ei_FileName = ''prod.postman_environment.json'',
                         ei_Path = [] \<rparr>,
                eg_Directory = ''billing'',
                eg_Collections =
                  [\<lparr> cr_Collection = ex_collection 7 ''billing'' ''prod'' ''checkout'',
                      cr_Execution = Some 0,
                      cr_LastSuccessExecution = Some (ex_execution 2 7 20 5 0),
                      cr_Results = [] \<rparr>] \<rparr>],
          lr_UpdatedAt = 0 \<rparr>)"
  by (simp add: ex_store_defs query_defs)

theorem GetLatestResults_last_success_witness:
  "(10::int) < 20 \<and> (20::int) < 30
   \<and> cr_LastSuccessExecution
        (hd (eg_Collections (hd (lr_EnvironmentGroups
           (snd (GetLatestResults PerIteration [(''billing'', ''prod'')] 0 ex_db1))))))
       = Some (ex_execution 2 7 20 5 0)
   \<and> GetLastSuccessfulExecution ex_db1 7 = Some (ex_execution 2 7 20 5 0)"
proof -
  let ?eg = "hd (lr_EnvironmentGroups
               (snd (GetLatestResults PerIteration [(''billing'', ''prod'')] 0 ex_db1)))"
  let ?cr = "hd (eg_Collections ?eg)"
  have h1: "?eg \<in> set (lr_EnvironmentGroups
               (snd (GetLatestResults PerIteration [(''billing'', ''prod'')] 0 ex_db1)))"
    by (simp add: ex_db1_results)
  have h2: "?cr \<in> set (eg_Collections ?eg)"
    by (simp add: ex_db1_results)
  have c: "(10::int) < 20 \<and> (20::int) < 30
     \<and> cr_LastSuccessExecution ?cr = Some (ex_execution 2 7 20 5 0)
     \<and> GetLastSuccessfulExecution ex_db1 7 = Some (ex_execution 2 7 20 5 0)"
    by (simp add: ex_db1_results)
       (simp add: ex_db1_def GetLastSuccessfulExecution_def ex_store_def ex_execution_def)
  show ?thesis
    using GetLatestResults_last_success[OF h1 h2, of 10 20 30
        "[ex_collection 7 ''billing'' ''prod'' ''checkout'']"]
    by - (rule c)
qed


lemma rangeMap_filter:
  "rangeMap order m = map (\<lambda>k. (k, the (m k))) (filter (\<lambda>k. m k \<noteq> None) order)"
  unfolding rangeMap_def by (induction order) auto

lemma mset_rangeMap:
  assumes "mset o1 = mset o2"
  shows "mset (rangeMap o1 m) = mset (rangeMap o2 m)"
proof -
  have "mset (rangeMap o1 m)
          = image_mset (\<lambda>k. (k, the (m k))) (filter_mset (\<lambda>k. m k \<noteq> None) (mset o1))"
    by (simp add: rangeMap_filter)
  also have "\<dots> = image_mset (\<lambda>k. (k, the (m k))) (filter_mset (\<lambda>k. m k \<noteq> None) (mset o2))"
    by (simp only: assms)
  also have "\<dots> = mset (rangeMap o2 m)"
    by (simp add: rangeMap_filter)
  finally show ?thesis .
qed

lemma iterationOrder_mset:
  assumes "iterationOrder o1 lv db" and "iterationOrder o2 lv db"
  shows "mset o1 = mset o2"
proof -
  from assms have "distinct o1" "distinct o2" "set o1 = set o2"
    by (simp_all add: iterationOrder_def)
  then show ?thesis by (simp add: set_eq_iff_mset_eq_distinct)
qed

text \<open>
  Claim C4, as the code has it.  For a fixed store, two runs of \<open>GetLatestResults\<close>
  with any two iteration orders of the group map give the same heap of selected
  executions and the same environment groups with the same members, as a multiset:
  only the order of the groups in the list can differ.  The timestamp is the clock
  reading of the call.
\<close>

theorem GetLatestResults_same_groups:
  assumes "iterationOrder o1 lv db" and "iterationOrder o2 lv db"
  shows "fst (GetLatestResults lv o1 now db) = fst (GetLatestResults lv o2 now db)
         \<and> mset (lr_EnvironmentGroups (snd (GetLatestResults lv o1 now db)))
             = mset (lr_EnvironmentGroups (snd (GetLatestResults lv o2 now db)))
         \<and> lr_UpdatedAt (snd (GetLatestResults lv o1 now db)) = now"
proof -
  let ?m = "fold groupStep (snd (buildCollectionResults lv db)) Map.empty"
  from mset_rangeMap[OF iterationOrder_mset[OF assms]]
  have "mset (rangeMap o1 ?m) = mset (rangeMap o2 ?m)" .
  then have "mset (map (\<lambda>(key, rs). makeEnvironmentGroup key rs) (rangeMap o1 ?m))
           = mset (map (\<lambda>(key, rs). makeEnvironmentGroup key rs) (rangeMap o2 ?m))"
    by (simp only: mset_map)
  then show ?thesis by (simp add: GetLatestResults_unfold)
qed

lemma ex_db2_groupKeys:
  "groupKeys PerIteration ex_db2 = [(''billing'', ''prod''), (''auth'', ''env'')]"
  by (simp add: groupKeys_def ex_store_defs query_defs)

lemma ex_db2_orders:
  "iterationOrder [(''billing'', ''prod''), (''auth'', ''env'')] PerIteration ex_db2"
  "iterationOrder [(''auth'', ''env''), (''billing'', ''prod'')] PerIteration ex_db2"
  by (auto simp: iterationOrder_def ex_db2_groupKeys)

theorem GetLatestResults_same_groups_witness:
  "mset (lr_EnvironmentGroups
           (snd (GetLatestResults PerIteration [(''billing'', ''prod''), (''auth'', ''env'')]
                   0 ex_db2)))
     = mset (lr_EnvironmentGroups
           (snd (GetLatestResults PerIteration [(''auth'', ''env''), (''billing'', ''prod'')]
                   0 ex_db2)))"
  using GetLatestResults_same_groups[OF ex_db2_orders, of 0] by simp

text \<open>
  Claim C4 as stated fails: on a store with results in two directories, two iteration
  orders of the group map give the groups in two different orders.
\<close>

theorem GetLatestResults_group_order_counterexample:
  "iterationOrder [(''billing'', ''prod''), (''auth'', ''env'')] PerIteration ex_db2
   \<and> iterationOrder [(''auth'', ''env''), (''billing'', ''prod'')] PerIteration ex_db2
   \<and> map eg_Directory (lr_EnvironmentGroups
        (snd (GetLatestResults PerIteration [(''billing'', ''prod''), (''auth'', ''env'')]
                0 ex_db2)))
       = [''billing'', ''auth'']
   \<and> map eg_Directory (lr_EnvironmentGroups
        (snd (GetLatestResults PerIteration [(''auth'', ''env''), (''billing'', ''prod'')]
                0 ex_db2)))
       = [''auth'', ''billing'']"
  by (simp add: ex_db2_orders) (simp add: ex_store_defs query_defs)


section \<open>Properties of the results handler\<close>

lemma indexStep_apply:
  "indexStep c m k = (if k = c_CompositeKey (cr_Collection c) then Some c else m k)"
  by (simp add: indexStep_def)

lemma index_inner_Some:
  assumes "fold indexStep crs m k = Some cr"
  shows "(cr \<in> set crs \<and> c_CompositeKey (cr_Collection cr) = k) \<or> m k = Some cr"
  using assms
proof (induction crs arbitrary: m)
  case Nil
  then show ?case by simp
next
  case (Cons c crs)
  from Cons(2) have "fold indexStep crs (indexStep c m) k = Some cr" by simp
  from Cons(1)[OF this] show ?case by (auto simp: indexStep_apply split: if_splits)
qed

lemma index_inner_dom:
  "fold indexStep crs m k \<noteq> None
     \<longleftrightarrow> (\<exists>cr \<in> set crs. c_CompositeKey (cr_Collection cr) = k) \<or> m k \<noteq> None"
proof (induction crs arbitrary: m)
  case Nil
  then show ?case by simp
next
  case (Cons c crs)
  have "fold indexStep (c # crs) m k \<noteq> None
          \<longleftrightarrow> fold indexStep crs (indexStep c m) k \<noteq> None"
    by simp
  also have "\<dots> \<longleftrightarrow> (\<exists>cr \<in> set crs. c_CompositeKey (cr_Collection cr) = k)
                        \<or> indexStep c m k \<noteq> None"
    by (rule Cons)
  also have "\<dots> \<longleftrightarrow> (\<exists>cr \<in> set (c # crs). c_CompositeKey (cr_Collection cr) = k)
                        \<or> m k \<noteq> None"
    by (auto simp: indexStep_apply)
  finally show ?case .
qed

lemma index_outer_Some:
  assumes "fold (\<lambda>envGroup. fold indexStep (eg_Collections envGroup)) egs m0 k = Some cr"
  shows "(\<exists>eg \<in> set egs. cr \<in> set (eg_Collections eg)
            \<and> c_CompositeKey (cr_Collection cr) = k) \<or> m0 k = Some cr"
  using assms
proof (induction egs arbitrary: m0)
  case Nil
  then show ?case by simp
next
  case (Cons g egs)
  let ?m1 = "fold indexStep (eg_Collections g) m0"
  from Cons(2) have
    "fold (\<lambda>envGroup. fold indexStep (eg_Collections envGroup)) egs ?m1 k = Some cr"
    by simp
  from Cons(1)[OF this] show ?case
  proof
    assume "\<exists>eg \<in> set egs. cr \<in> set (eg_Collections eg)
            \<and> c_CompositeKey (cr_Collection cr) = k"
    then show ?thesis by auto
  next
    assume "?m1 k = Some cr"
    from index_inner_Some[OF this] show ?thesis by auto
  qed
qed

lemma index_outer_dom:
  "fold (\<lambda>envGroup. fold indexStep (eg_Collections envGroup)) egs m0 k \<noteq> None
     \<longleftrightarrow> (\<exists>eg \<in> set egs. \<exists>cr \<in> set (eg_Collections eg).
            c_CompositeKey (cr_Collection cr) = k) \<or> m0 k \<noteq> None"
proof (induction egs arbitrary: m0)
  case Nil
  then show ?case by simp
next
  case (Cons g egs)
  have "fold (\<lambda>envGroup. fold indexStep (eg_Collections envGroup)) (g # egs) m0 k \<noteq> None
      \<longleftrightarrow> fold (\<lambda>envGroup. fold indexStep (eg_Collections envGroup)) egs
          (fold indexStep (eg_Collections g) m0) k \<noteq> None"
    by simp
  also have "\<dots> \<longleftrightarrow> (\<exists>eg \<in> set egs. \<exists>cr \<in> set (eg_Collections eg).
                          c_CompositeKey (cr_Collection cr) = k)
                        \<or> fold indexStep (eg_Collections g) m0 k \<noteq> None"
    by (rule Cons)
  also have "\<dots> \<longleftrightarrow> (\<exists>eg \<in> set (g # egs). \<exists>cr \<in> set (eg_Collections eg).
                          c_CompositeKey (cr_Collection cr) = k)
                        \<or> m0 k \<noteq> None"
    unfolding index_inner_dom by auto
  finally show ?case .
qed

lemma indexResults_Some:
  assumes "indexResults egs k = Some cr"
  shows "\<exists>eg \<in> set egs. cr \<in> set (eg_Collections eg) \<and> c_CompositeKey (cr_Collection cr) = k"
  using index_outer_Some[OF assms[unfolded indexResults_def]] by simp

lemma indexResults_dom:
  "indexResults egs k \<noteq> None
     \<longleftrightarrow> (\<exists>eg \<in> set egs. \<exists>cr \<in> set (eg_Collections eg).
            c_CompositeKey (cr_Collection cr) = k)"
  unfolding indexResults_def index_outer_dom by simp

lemma GetLatestResults_complete:
  assumes "iterationOrder order lv db" and "cr \<in> set (snd (buildCollectionResults lv db))"
  shows "\<exists>eg \<in> set (lr_EnvironmentGroups (snd (GetLatestResults lv order now db))).
           cr \<in> set (eg_Collections eg)"
proof -
  let ?crs = "snd (buildCollectionResults lv db)"
  let ?k = "groupKeyOf cr"
  let ?rs = "filter (\<lambda>c. groupKeyOf c = ?k) ?crs"
  from assms(2) have img: "?k \<in> groupKeyOf ` set ?crs" by simp
  with assms(1) have "?k \<in> set order" by (simp add: iterationOrder_def groupKeys_def)
  moreover from img have "fold groupStep ?crs Map.empty ?k = Some ?rs"
    by (simp add: groupMap_lookup)
  ultimately have "(?k, ?rs) \<in> set (rangeMap order (fold groupStep ?crs Map.empty))"
    by (simp add: set_rangeMap)
  then have "makeEnvironmentGroup ?k ?rs
               \<in> set (lr_EnvironmentGroups (snd (GetLatestResults lv order now db)))"
    unfolding GetLatestResults_unfold by (simp add: image_iff) force
  moreover from assms(2) have "cr \<in> set (eg_Collections (makeEnvironmentGroup ?k ?rs))"
    by simp
  ultimately show ?thesis by blast
qed

lemma collectionResultStep_mono:
  assumes "collectionResultStep lv db allc x (h, crs) = (h', crs')"
  shows "set crs \<subseteq> set crs'"
  using assms
  by (cases lv; cases "find (\<lambda>col. c_ID col = te_CollectionID x) allc")
     (auto simp: collectionResultStep_def)

lemma fold_collectionResultStep_mono:
  "set crs \<subseteq> set (snd (fold (collectionResultStep lv db allc) execs (h, crs)))"
proof (induction execs arbitrary: h crs)
  case Nil
  then show ?case by simp
next
  case (Cons x execs)
  obtain h' crs' where st: "collectionResultStep lv db allc x (h, crs) = (h', crs')"
    by (cases "collectionResultStep lv db allc x (h, crs)")
  from collectionResultStep_mono[OF st] Cons[of crs' h'] st show ?case by auto
qed

lemma collectionResultStep_new:
  assumes "collectionResultStep lv db allc x (h, crs) = (h', crs')"
      and "find (\<lambda>col. c_ID col = te_CollectionID x) allc = Some col"
  shows "\<exists>cr \<in> set crs'. cr_Collection cr = col"
  using assms by (cases lv) (auto simp: collectionResultStep_def)

lemma fold_collectionResultStep_complete:
  assumes "exec \<in> set execs"
      and "find (\<lambda>col. c_ID col = te_CollectionID exec) allc = Some col"
  shows "\<exists>cr \<in> set (snd (fold (collectionResultStep lv db allc) execs (h, crs))).
           cr_Collection cr = col"
  using assms(1)
proof (induction execs arbitrary: h crs)
  case Nil
  then show ?case by simp
next
  case (Cons x execs)
  obtain h' crs' where st: "collectionResultStep lv db allc x (h, crs) = (h', crs')"
    by (cases "collectionResultStep lv db allc x (h, crs)")
  show ?case
  proof (cases "exec = x")
    case True
    with collectionResultStep_new[OF st] assms(2)
    obtain cr where "cr \<in> set crs'" "cr_Collection cr = col" by auto
    with fold_collectionResultStep_mono[of crs' lv db allc execs h'] st
    show ?thesis by auto
  next
    case False
    with Cons(2) have "exec \<in> set execs" by simp
    from Cons(1)[OF this, of h' crs'] st show ?thesis by simp
  qed
qed

lemma find_by_id:
  "distinct (map c_ID cs) \<Longrightarrow> c \<in> set cs \<Longrightarrow> find (\<lambda>col. c_ID col = c_ID c) cs = Some c"
proof (induction cs)
  case Nil
  then show ?case by simp
next
  case (Cons a cs)
  then show ?case by (auto simp: image_iff)
qed

lemma persisted_iff_result:
  assumes "distinct (map c_ID (collections db))"
  shows "hasPersistedExecution db key
     \<longleftrightarrow> (\<exists>cr \<in> set (snd (buildCollectionResults lv db)).
            c_CompositeKey (cr_Collection cr) = key)"
proof
  assume "hasPersistedExecution db key"
  then obtain c e where c: "c \<in> set (collections db)" "c_CompositeKey c = key"
    and e: "e \<in> set (test_executions db)" "te_CollectionID e = c_ID c"
    by (auto simp: hasPersistedExecution_def)
  from e have "c_ID c \<in> te_CollectionID ` set (test_executions db)"
    by (metis imageI)
  then have "c_ID c \<in> te_CollectionID ` set (GetLatestExecutions db)"
    by (simp only: ids_GetLatestExecutions)
  then obtain exec where x: "exec \<in> set (GetLatestExecutions db)" "te_CollectionID exec = c_ID c"
    by auto
  from assms have "distinct (map c_ID (GetAllCollections db))"
    by (simp add: GetAllCollections_def distinct_map_sort_key)
  moreover from c have "c \<in> set (GetAllCollections db)" by (simp add: GetAllCollections_def)
  ultimately have "find (\<lambda>col. c_ID col = c_ID c) (GetAllCollections db) = Some c"
    by (rule find_by_id)
  with x have "find (\<lambda>col. c_ID col = te_CollectionID exec) (GetAllCollections db) = Some c"
    by simp
  from fold_collectionResultStep_complete[OF x(1) this, of lv db "[]" "[]"] c(2)
  show "\<exists>cr \<in> set (snd (buildCollectionResults lv db)). c_CompositeKey (cr_Collection cr) = key"
    unfolding buildCollectionResults_def by auto
next
  assume "\<exists>cr \<in> set (snd (buildCollectionResults lv db)).
            c_CompositeKey (cr_Collection cr) = key"
  then obtain cr where cr: "cr \<in> set (snd (buildCollectionResults lv db))"
    and k: "c_CompositeKey (cr_Collection cr) = key" by auto
  from buildCollectionResults_elem[OF cr] obtain exec where
    x: "exec \<in> set (GetLatestExecutions db)"
    and r: "resultOf db (GetAllCollections db) exec cr" by auto
  from x set_latest have "exec \<in> set (test_executions db)"
    unfolding set_GetLatestExecutions by blast
  moreover from r have "cr_Collection cr \<in> set (collections db)"
    and "c_ID (cr_Collection cr) = te_CollectionID exec"
    by (simp_all add: resultOf_def GetAllCollections_def)
  ultimately show "hasPersistedExecution db key"
    using k unfolding hasPersistedExecution_def by force
qed


lemma matchCollection_result:
  assumes pk: "distinct (map c_ID (collections db))"
      and ord: "iterationOrder order lv db"
      and idx: "idx = indexResults
                        (lr_EnvironmentGroups (snd (GetLatestResults lv order now db)))"
  shows "c_CompositeKey (cr_Collection (matchCollection U eh idx grp col))
           = fst (readKey U eh grp col)
         \<and> (cr_Execution (matchCollection U eh idx grp col) \<noteq> None
              \<longleftrightarrow> hasPersistedExecution db (fst (readKey U eh grp col)))
         \<and> (cr_Execution (matchCollection U eh idx grp col) = None
              \<longrightarrow> cr_Results (matchCollection U eh idx grp col) = [])"
proof -
  obtain key dir env collName where rk: "readKey U eh grp col = (key, dir, env, collName)"
    by (cases "readKey U eh grp col") auto
  let ?crs = "snd (buildCollectionResults lv db)"
  show ?thesis
  proof (cases "idx key")
    case None
    then have m: "matchCollection U eh idx grp col = placeholderResult col key dir env collName"
      by (simp add: matchCollection_def rk)
    have "\<not> hasPersistedExecution db key"
    proof
      assume "hasPersistedExecution db key"
      with persisted_iff_result[OF pk, of key lv] obtain cr where
        cr: "cr \<in> set ?crs" and k: "c_CompositeKey (cr_Collection cr) = key" by auto
      from GetLatestResults_complete[OF ord cr, of now] k
      have "idx key \<noteq> None" unfolding idx indexResults_dom by blast
      with None show False by simp
    qed
    with m rk show ?thesis by (simp add: placeholderResult_def)
  next
    case (Some r)
    then have m: "matchCollection U eh idx grp col = r"
      by (simp add: matchCollection_def rk)
    from indexResults_Some[OF Some[unfolded idx]] obtain eg where
      eg: "eg \<in> set (lr_EnvironmentGroups (snd (GetLatestResults lv order now db)))"
      and r: "r \<in> set (eg_Collections eg)"
      and k: "c_CompositeKey (cr_Collection r) = key" by auto
    from GetLatestResults_elem[OF eg r] have rin: "r \<in> set ?crs" .
    from buildCollectionResults_elem[OF rin] have x: "cr_Execution r \<noteq> None"
      by (auto simp: resultOf_def)
    from rin k persisted_iff_result[OF pk, of key lv] have "hasPersistedExecution db key"
      by blast
    with m x k rk show ?thesis by auto
  qed
qed

lemma handleResults_unfold:
  assumes "ScanGroups U lv root = Inr (eh, groups)"
  shows "handleResults U ''GET'' lv root order now db =
     Inr (fst (GetLatestResults lv order now db),
          \<lparr> lr_EnvironmentGroups =
              map (resultGroup U eh
                     (indexResults
                        (lr_EnvironmentGroups (snd (GetLatestResults lv order now db)))))
                groups,
            lr_UpdatedAt = lr_UpdatedAt (snd (GetLatestResults lv order now db)) \<rparr>)"
  using assms by (simp add: handleResults_def Let_def split: prod.splits)

text \<open>
  Claim C1, as the code has it.  When the scan succeeds, the primary keys of the
  collection rows are distinct and \<open>order\<close> is an iteration order of the group map,
  the handler answers with one group per scanned group and, in it, one result per
  collection file of that group, in the same order, each carrying the composite key
  the handler computes for that group and file.  A result has a non-null execution
  exactly when its key has persisted history; a result with a null execution has an
  empty result list.  Keys that are not in the scan get no result.
\<close>

theorem handleResults_one_result_per_scanned_file:
  assumes scan: "ScanGroups U lv root = Inr (eh, groups)"
      and pk: "distinct (map c_ID (collections db))"
      and ord: "iterationOrder order lv db"
  shows "\<exists>xh resp.
           handleResults U ''GET'' lv root order now db = Inr (xh, resp)
           \<and> map (\<lambda>eg. map (\<lambda>cr. c_CompositeKey (cr_Collection cr)) (eg_Collections eg))
                 (lr_EnvironmentGroups resp)
               = map (\<lambda>grp. map (\<lambda>col. fst (readKey U eh grp col)) (g_Collections grp)) groups
           \<and> (\<forall>eg \<in> set (lr_EnvironmentGroups resp). \<forall>cr \<in> set (eg_Collections eg).
                  (cr_Execution cr \<noteq> None
                     \<longleftrightarrow> hasPersistedExecution db (c_CompositeKey (cr_Collection cr)))
                  \<and> (cr_Execution cr = None \<longrightarrow> cr_Results cr = []))"
proof -
  let ?idx = "indexResults (lr_EnvironmentGroups (snd (GetLatestResults lv order now db)))"
  let ?resp = "\<lparr> lr_EnvironmentGroups = map (resultGroup U eh ?idx) groups,
                 lr_UpdatedAt = lr_UpdatedAt (snd (GetLatestResults lv order now db)) \<rparr>"
  note mc = matchCollection_result[OF pk ord refl, where U=U and eh=eh and now=now]
  have keys: "map (\<lambda>eg. map (\<lambda>cr. c_CompositeKey (cr_Collection cr)) (eg_Collections eg))
                 (lr_EnvironmentGroups ?resp)
               = map (\<lambda>grp. map (\<lambda>col. fst (readKey U eh grp col)) (g_Collections grp)) groups"
    using mc by (simp add: resultGroup_def comp_def)
  have each: "\<forall>eg \<in> set (lr_EnvironmentGroups ?resp). \<forall>cr \<in> set (eg_Collections eg).
                  (cr_Execution cr \<noteq> None
                     \<longleftrightarrow> hasPersistedExecution db (c_CompositeKey (cr_Collection cr)))
                  \<and> (cr_Execution cr = None \<longrightarrow> cr_Results cr = [])"
  proof (intro ballI)
    fix eg cr
    assume "eg \<in> set (lr_EnvironmentGroups ?resp)" and c: "cr \<in> set (eg_Collections eg)"
    then obtain grp where "eg = resultGroup U eh ?idx grp" by auto
    with c obtain col where "cr = matchCollection U eh ?idx grp col"
      by (auto simp: resultGroup_def)
    with mc[where grp=grp and col=col] show "(cr_Execution cr \<noteq> None
                     \<longleftrightarrow> hasPersistedExecution db (c_CompositeKey (cr_Collection cr)))
                  \<and> (cr_Execution cr = None \<longrightarrow> cr_Results cr = [])"
      by simp
  qed
  from handleResults_unfold[OF scan, where order=order and now=now and db=db] keys each
  show ?thesis by blast
qed

lemma ex_db3_groupKeys: "groupKeys lv ex_db3 = [(''billing'', ''production'')]"
  by (cases lv) (simp_all add: groupKeys_def ex_db3_def ex_store_defs query_defs)

theorem handleResults_one_result_per_scanned_file_witness:
  "\<forall>U. \<exists>xh resp.
     handleResults U ''GET'' PerIteration ex_prod_root [(''billing'', ''production'')] 0 ex_db3
       = Inr (xh, resp)
     \<and> map (\<lambda>eg. map (\<lambda>cr. c_CompositeKey (cr_Collection cr)) (eg_Collections eg))
           (lr_EnvironmentGroups resp)
         = [ [''billing_production_checkout''] ]
     \<and> hasPersistedExecution ex_db3 ''billing_production_checkout''"
proof
  fix U
  have pk: "distinct (map c_ID (collections ex_db3))"
    by (simp add: ex_db3_def ex_store_defs)
  have ord: "iterationOrder [(''billing'', ''production'')] PerIteration ex_db3"
    by (simp add: iterationOrder_def ex_db3_groupKeys)
  have rk: "fst (readKey U [ex_prod_env] ex_prod_group ex_checkout_col)
              = ''billing_production_checkout''"
    by (simp add: readKey_def groupEnv_def ex_prod_env_def ex_prod_group_def
        ex_checkout_col_def GenerateCompositeKey_def Let_def TrimSuffix_def HasSuffix_def
        ToLower_def isASCII_def toLower_char_def Base_def)
  have p: "hasPersistedExecution ex_db3 ''billing_production_checkout''"
    by (simp add: hasPersistedExecution_def ex_db3_def ex_store_defs)
  from handleResults_one_result_per_scanned_file[OF ex_prod_scan pk ord,
      where U=U and now=0]
  obtain xh resp where
    h: "handleResults U ''GET'' PerIteration ex_prod_root [(''billing'', ''production'')] 0 ex_db3
          = Inr (xh, resp)"
    and ks: "map (\<lambda>eg. map (\<lambda>cr. c_CompositeKey (cr_Collection cr)) (eg_Collections eg))
               (lr_EnvironmentGroups resp)
             = map (\<lambda>grp. map (\<lambda>col. fst (readKey U [ex_prod_env] grp col)) (g_Collections grp))
                 [ex_prod_group]"
    by blast
  from ks rk have ks': "map (\<lambda>eg. map (\<lambda>cr. c_CompositeKey (cr_Collection cr)) (eg_Collections eg))
               (lr_EnvironmentGroups resp) = [ [''billing_production_checkout''] ]"
    by (simp add: ex_prod_group_def)
  show "\<exists>xh resp.
     handleResults U ''GET'' PerIteration ex_prod_root [(''billing'', ''production'')] 0 ex_db3
       = Inr (xh, resp)
     \<and> map (\<lambda>eg. map (\<lambda>cr. c_CompositeKey (cr_Collection cr)) (eg_Collections eg))
           (lr_EnvironmentGroups resp)
         = [ [''billing_production_checkout''] ]
     \<and> hasPersistedExecution ex_db3 ''billing_production_checkout''"
    by (rule exI[of _ xh], rule exI[of _ resp]) (simp only: h ks' p simp_thms)
qed

text \<open>
  Claim C1 as stated fails: a key with persisted history that the current scan does
  not show gets no result in the handler's answer.
\<close>

theorem handleResults_unscanned_key_counterexample:
  "\<forall>U. hasPersistedExecution ex_db1 ''billing_prod_checkout''
     \<and> ScanGroups U PerIteration (RootListing []) = Inr ([], [])
     \<and> iterationOrder [(''billing'', ''prod'')] PerIteration ex_db1
     \<and> handleResults U ''GET'' PerIteration (RootListing []) [(''billing'', ''prod'')] 0 ex_db1
         = Inr ([ex_execution 3 7 30 0 0], \<lparr> lr_EnvironmentGroups = [], lr_UpdatedAt = 0 \<rparr>)"
proof
  fix U
  have a: "hasPersistedExecution ex_db1 ''billing_prod_checkout''"
    by (simp add: hasPersistedExecution_def ex_store_defs)
  have b: "ScanGroups U PerIteration (RootListing []) = Inr ([], [])"
    by (simp add: ScanGroups_def)
  have c: "iterationOrder [(''billing'', ''prod'')] PerIteration ex_db1"
    by (simp add: iterationOrder_def groupKeys_def ex_store_defs query_defs)
  have d: "handleResults U ''GET'' PerIteration (RootListing []) [(''billing'', ''prod'')] 0 ex_db1
       = Inr ([ex_execution 3 7 30 0 0], \<lparr> lr_EnvironmentGroups = [], lr_UpdatedAt = 0 \<rparr>)"
    by (simp add: handleResults_unfold[OF b] ex_db1_results)
  from a b c d
  show "hasPersistedExecution ex_db1 ''billing_prod_checkout''
     \<and> ScanGroups U PerIteration (RootListing []) = Inr ([], [])
     \<and> iterationOrder [(''billing'', ''prod'')] PerIteration ex_db1
     \<and> handleResults U ''GET'' PerIteration (RootListing []) [(''billing'', ''prod'')] 0 ex_db1
         = Inr ([ex_execution 3 7 30 0 0], \<lparr> lr_EnvironmentGroups = [], lr_UpdatedAt = 0 \<rparr>)"
    by blast
qed

section \<open>Properties of the execution unit\<close>

lemma Execute_result:
  assumes "Execute e w cp ep d en = (r, err)"
  shows "(r = None \<longrightarrow> err \<noteq> None)
         \<and> (r \<noteq> None \<longrightarrow> err \<noteq> None \<longrightarrow>
              (\<exists>res msg. r = Some res \<and> nr_Error res = Some msg
                 \<and> err = Some (NewmanExecutionFailed msg)))"
  using assms
  by (auto simp: Execute_def Let_def split: option.splits prod.splits if_splits)

lemma unitRun_result:
  assumes "unitRun U ex w args = (r, err)"
  shows "(r = None \<longrightarrow> err \<noteq> None)
         \<and> (r \<noteq> None \<longrightarrow> err \<noteq> None \<longrightarrow>
              (\<exists>res msg. r = Some res \<and> nr_Error res = Some msg
                 \<and> err = Some (NewmanExecutionFailed msg)))"
proof -
  obtain col environmentPath directoryName environmentName where
    args: "args = (col, environmentPath, directoryName, environmentName)"
    by (cases args) auto
  obtain compositeKey dir env collName where
    dk: "dispatchKey U (col, environmentPath, directoryName, environmentName)
           = (compositeKey, dir, env, collName)"
    by (cases "dispatchKey U (col, environmentPath, directoryName, environmentName)") auto
  from assms have "Execute ex w (cf_FullPath col) environmentPath dir
                       (if env = ''env'' then None else Some env) = (r, err)"
    by (simp add: unitRun_def args dk)
  from Execute_result[OF this] show ?thesis .
qed

lemma started_append: "started (xs @ ys) = started xs @ started ys"
  by (induction xs rule: started.induct) simp_all

lemma storeTestResult_keeps:
  "test_executions (s_db (storeTestResult w faults result execution it s))
     = test_executions (s_db s)
   \<and> collections (s_db (storeTestResult w faults result execution it s))
     = collections (s_db s)
   \<and> s_failedRuns (storeTestResult w faults result execution it s) = s_failedRuns s
   \<and> s_totalRuns (storeTestResult w faults result execution it s) = s_totalRuns s
   \<and> started (s_log (storeTestResult w faults result execution it s)) = started (s_log s)"
  by (cases it)
     (auto simp: storeTestResult_def CreateTestResult_def logLine_def Let_def started_append
       split: sum.splits if_splits)

lemma fold_storeTestResult_keeps:
  "test_executions (s_db (fold (storeTestResult w faults result execution) its s))
     = test_executions (s_db s)
   \<and> collections (s_db (fold (storeTestResult w faults result execution) its s))
     = collections (s_db s)
   \<and> s_failedRuns (fold (storeTestResult w faults result execution) its s) = s_failedRuns s
   \<and> s_totalRuns (fold (storeTestResult w faults result execution) its s) = s_totalRuns s
   \<and> started (s_log (fold (storeTestResult w faults result execution) its s))
     = started (s_log s)"
proof (induction its arbitrary: s)
  case Nil
  then show ?case by simp
next
  case (Cons it its)
  show ?case
    using Cons[of "storeTestResult w faults result execution it s"]
      storeTestResult_keeps[of w faults result execution it s]
    by simp
qed

lemma UpsertCollection_keeps:
  assumes "UpsertCollection db fails n fp k d e c now = Inr (db', row)"
  shows "test_executions db' = test_executions db \<and> test_results db' = test_results db"
  using assms
  by (auto simp: UpsertCollection_def Let_def split: if_splits option.splits)

lemma UpsertCollection_ok:
  "\<exists>db' row. UpsertCollection db False n fp k d e c now = Inr (db', row)"
  by (cases "find (\<lambda>c. c_CompositeKey c = k) (collections db)")
     (simp_all add: UpsertCollection_def Let_def)

lemma persistResult_ok:
  assumes "\<not> f_Upsert faults" and "\<not> f_CreateExecution faults"
  shows "\<exists>row. snd (persistResult w faults col key result s) = None
           \<and> test_executions (s_db (fst (persistResult w faults col key result s)))
               = test_executions (s_db s) @ [row]
           \<and> rowSummary row = resultSummary result
           \<and> s_failedRuns (fst (persistResult w faults col key result s)) = s_failedRuns s"
proof -
  obtain compositeKey dir env collName where key: "key = (compositeKey, dir, env, collName)"
    by (cases key) auto
  from assms(1) UpsertCollection_ok[of "s_db s" "nr_CollectionName result" "cf_FullPath col"
      compositeKey dir env collName "w_Now w"]
  obtain db1 dbCollection where
    up: "UpsertCollection (s_db s) (f_Upsert faults) (nr_CollectionName result)
           (cf_FullPath col) compositeKey dir env collName (w_Now w) = Inr (db1, dbCollection)"
    by auto
  from UpsertCollection_keeps[OF up] have k1: "test_executions db1 = test_executions (s_db s)"
    by simp
  show ?thesis
    using assms(2) k1
      fold_storeTestResult_keeps[of w faults result]
    by (simp add: persistResult_def key up CreateTestExecution_def newExecution_def Let_def logLine_def
        rowSummary_def resultSummary_def)
qed

lemma persistResult_refused:
  assumes "f_Upsert faults \<or> f_CreateExecution faults"
  shows "snd (persistResult w faults col key result s) \<noteq> None
           \<and> test_executions (s_db (fst (persistResult w faults col key result s)))
               = test_executions (s_db s)
           \<and> s_failedRuns (fst (persistResult w faults col key result s))
               = s_failedRuns s + 1"
proof -
  obtain compositeKey dir env collName where key: "key = (compositeKey, dir, env, collName)"
    by (cases key) auto
  show ?thesis
  proof (cases "f_Upsert faults")
    case True
    then show ?thesis
      by (simp add: persistResult_def key UpsertCollection_def logLine_def
          incrementFailedRuns_def)
  next
    case False
    with assms have ce: "f_CreateExecution faults" by simp
    from False UpsertCollection_ok[of "s_db s" "nr_CollectionName result" "cf_FullPath col"
        compositeKey dir env collName "w_Now w"]
    obtain db1 dbCollection where
      up: "UpsertCollection (s_db s) (f_Upsert faults) (nr_CollectionName result)
             (cf_FullPath col) compositeKey dir env collName (w_Now w) = Inr (db1, dbCollection)"
      by auto
    from UpsertCollection_keeps[OF up] have k1: "test_executions db1 = test_executions (s_db s)"
      by simp
    show ?thesis
      using ce k1
      by (simp add: persistResult_def key up CreateTestExecution_def newExecution_def Let_def logLine_def
          incrementFailedRuns_def)
  qed
qed

lemma persistResult_started:
  "started (s_log (fst (persistResult w faults col key result s))) = started (s_log s)"
proof -
  obtain compositeKey dir env collName where key: "key = (compositeKey, dir, env, collName)"
    by (cases key) auto
  show ?thesis
    using fold_storeTestResult_keeps[of w faults result]
    by (auto simp: persistResult_def key CreateTestExecution_def newExecution_def Let_def logLine_def
        incrementFailedRuns_def started_append split: sum.splits prod.splits)
qed

lemma executeCollection_unfold:
  "executeCollection U ex w faults args s0 =
     (let s = logLine (LogExecuting (cf_Name (fst args)) (fst (snd args) \<noteq> None)) s0
      in (case unitRun U ex w args of
            (None, Some err) \<Rightarrow>
              (incrementFailedRuns (logLine (LogNewmanError (cf_Name (fst args))) s), Some err)
          | (None, None) \<Rightarrow> (s, Some NilPointerDereference)
          | (Some result, Some err) \<Rightarrow>
              persistResult w faults (fst args) (dispatchKey U args) result
                (logLine (LogNewmanError (cf_Name (fst args))) s)
          | (Some result, None) \<Rightarrow>
              persistResult w faults (fst args) (dispatchKey U args) result s))"
proof -
  obtain col ep dn en where args: "args = (col, ep, dn, en)" by (cases args) auto
  obtain k d e c where dk: "dispatchKey U (col, ep, dn, en) = (k, d, e, c)"
    by (cases "dispatchKey U (col, ep, dn, en)") auto
  show ?thesis
    unfolding args
    by (simp add: executeCollection_def unitRun_def Let_def dk
        split: prod.splits option.splits)
qed

lemma executeCollection_result:
  assumes "fst (unitRun U ex w args) = Some result"
  shows "\<exists>s1. executeCollection U ex w faults args s
                = persistResult w faults (fst args) (dispatchKey U args) result s1
              \<and> test_executions (s_db s1) = test_executions (s_db s)
              \<and> s_failedRuns s1 = s_failedRuns s"
proof -
  obtain r e where run: "unitRun U ex w args = (r, e)" by (cases "unitRun U ex w args")
  with assms have r: "r = Some result" by simp
  show ?thesis
  proof (cases e)
    case None
    with run r show ?thesis
      by (intro exI[of _ "logLine (LogExecuting (cf_Name (fst args)) (fst (snd args) \<noteq> None)) s"])
         (simp add: executeCollection_unfold Let_def logLine_def)
  next
    case (Some err)
    with run r show ?thesis
      by (intro exI[of _ "logLine (LogNewmanError (cf_Name (fst args)))
              (logLine (LogExecuting (cf_Name (fst args)) (fst (snd args) \<noteq> None)) s)"])
         (simp add: executeCollection_unfold Let_def logLine_def)
  qed
qed

lemma executeCollection_persists:
  assumes "fst (unitRun U ex w args) = Some result"
      and "\<not> f_Upsert faults" and "\<not> f_CreateExecution faults"
  shows "snd (executeCollection U ex w faults args s) = None
         \<and> (\<exists>row. test_executions (s_db (fst (executeCollection U ex w faults args s)))
                     = test_executions (s_db s) @ [row]
                   \<and> rowSummary row = resultSummary result)
         \<and> s_failedRuns (fst (executeCollection U ex w faults args s)) = s_failedRuns s"
proof -
  from executeCollection_result[OF assms(1)] obtain s1 where
    eq: "executeCollection U ex w faults args s
           = persistResult w faults (fst args) (dispatchKey U args) result s1"
    and k: "test_executions (s_db s1) = test_executions (s_db s)"
           "s_failedRuns s1 = s_failedRuns s"
    by blast
  from persistResult_ok[OF assms(2,3), of w "fst args" "dispatchKey U args" result s1]
  show ?thesis unfolding eq k by blast
qed

lemma executeCollection_fails:
  assumes "fst (unitRun U ex w args) = None \<or> f_Upsert faults \<or> f_CreateExecution faults"
  shows "snd (executeCollection U ex w faults args s) \<noteq> None
         \<and> test_executions (s_db (fst (executeCollection U ex w faults args s)))
             = test_executions (s_db s)
         \<and> s_failedRuns (fst (executeCollection U ex w faults args s)) = s_failedRuns s + 1"
proof (cases "fst (unitRun U ex w args)")
  case None
  obtain r e where run: "unitRun U ex w args = (r, e)" by (cases "unitRun U ex w args")
  with None have r: "r = None" by simp
  with unitRun_result[OF run] obtain err where "e = Some err" by auto
  with run r show ?thesis
    by (simp add: executeCollection_unfold Let_def logLine_def incrementFailedRuns_def)
next
  case (Some result)
  with assms have f: "f_Upsert faults \<or> f_CreateExecution faults" by simp
  from executeCollection_result[OF Some] obtain s1 where
    eq: "executeCollection U ex w faults args s
           = persistResult w faults (fst args) (dispatchKey U args) result s1"
    and k: "test_executions (s_db s1) = test_executions (s_db s)"
           "s_failedRuns s1 = s_failedRuns s"
    by blast
  from persistResult_refused[OF f, of w "fst args" "dispatchKey U args" result s1]
  show ?thesis unfolding eq k by blast
qed

lemma executeCollection_no_result:
  assumes "fst (unitRun U ex w args) = None"
  shows "s_db (fst (executeCollection U ex w faults args s)) = s_db s"
proof -
  obtain r e where run: "unitRun U ex w args = (r, e)" by (cases "unitRun U ex w args")
  with assms have r: "r = None" by simp
  with run show ?thesis
    by (cases e)
       (simp_all add: executeCollection_unfold Let_def logLine_def incrementFailedRuns_def)
qed

lemma executeCollection_started:
  "started (s_log (fst (executeCollection U ex w faults args s)))
     = started (s_log s) @ [cf_Name (fst args)]"
  unfolding executeCollection_unfold Let_def
  by (auto simp: persistResult_started logLine_def incrementFailedRuns_def started_append
      split: option.splits prod.splits)

lemma ex_unitRun:
  "unitRun U ex_executor ex_world (dispatchArgs [ex_prod_env] ex_prod_group ex_checkout_col)
     = (Some ex_result, Some (NewmanExecutionFailed ''boom''))"
  by (simp add: unitRun_def dispatchArgs_def dispatchKey_def groupEnv_def ex_prod_env_def
      ex_prod_group_def ex_checkout_col_def GenerateCompositeKey_def Let_def TrimSuffix_def
      HasSuffix_def ToLower_def isASCII_def toLower_char_def Base_def Execute_def ex_world_def
      ex_executor_def ex_result_def)

subsection \<open>A goroutine on its own\<close>

lemma finish_PcFinished: "finish U ex w faults args PcFinished s = s"
  by (simp add: finish.simps)

lemma finish_step:
  "g \<noteq> PcFinished \<Longrightarrow>
     finish U ex w faults args g s
       = finish U ex w faults args (fst (step U ex w faults args g s))
           (snd (step U ex w faults args g s))"
  by (subst finish.simps) (simp add: split_beta)

lemma finish_PcLog:
  "finish U ex w faults args (PcLog l next) s = finish U ex w faults args next (logLine l s)"
  by (simp add: finish_step[of "PcLog l next"])

lemma finish_PcReturn:
  "finish U ex w faults args (PcReturn err) s =
     (case err of None \<Rightarrow> s | Some e \<Rightarrow> logLine (LogUnitError (cf_Name (fst args))) s)"
  by (cases err)
     (simp_all add: finish_step[of "PcReturn None"] finish_step[of "PcReturn (Some e)" for e]
        finish_PcLog finish_PcFinished)

lemma finish_PcCountFailure:
  "finish U ex w faults args (PcCountFailure err) s
     = logLine (LogUnitError (cf_Name (fst args))) (incrementFailedRuns s)"
  by (simp add: finish_step[of "PcCountFailure err"] finish_PcReturn)

lemma finish_PcResults:
  "finish U ex w faults args (PcResults result stored tests) s
     = logLine (LogCompleted (cf_Name (fst args)))
         (fold (storeTestResult w faults result stored) tests s)"
proof (induction tests arbitrary: s)
  case Nil
  show ?case by (simp add: finish_step[of "PcResults result stored []"] finish_PcLog finish_PcReturn)
next
  case (Cons it tests)
  obtain i test where it: "it = (i, test)" by (cases it)
  show ?case
    by (cases "CreateTestResult (s_db s) (f_CreateResult faults i)
                 (makeTestResult result stored test) (w_Now w)")
       (auto simp: it finish_step[of "PcResults result stored ((i, test) # tests)"]
          finish_PcLog Cons storeTestResult_def)
qed

lemma finish_PcInsert:
  "finish U ex w faults args (PcInsert result dbCollection) s =
     (case CreateTestExecution (s_db s) (f_CreateExecution faults)
             (newExecution w result dbCollection) (w_Now w) of
        Inl err \<Rightarrow>
          logLine (LogUnitError (cf_Name (fst args)))
            (incrementFailedRuns (logLine (LogCreateExecutionError (cf_Name (fst args))) s))
      | Inr (db2, stored) \<Rightarrow>
          logLine (LogCompleted (cf_Name (fst args)))
            (fold (storeTestResult w faults result stored) (enumerate 0 (nr_Tests result))
               (s\<lparr> s_db := db2 \<rparr>)))"
  by (auto simp: finish_step[of "PcInsert result dbCollection"] finish_PcLog
      finish_PcCountFailure finish_PcResults split: sum.splits)

lemma finish_PcUpsert:
  "finish U ex w faults args (PcUpsert result) s
     = (case persistResult w faults (fst args) (dispatchKey U args) result s of
          (s', None) \<Rightarrow> s'
        | (s', Some err) \<Rightarrow> logLine (LogUnitError (cf_Name (fst args))) s')"
proof -
  obtain k d e c where dk: "dispatchKey U args = (k, d, e, c)"
    by (cases "dispatchKey U args") auto
  show ?thesis
    by (auto simp: finish_step[of "PcUpsert result"] finish_PcLog finish_PcCountFailure
        finish_PcInsert dk persistResult_def Let_def split: sum.splits)
qed

text \<open>
  A goroutine that runs from its beginning to its end with no other goroutine in
  between does what the call of \<open>executeCollection\<close> and the log line for its
  error do.
\<close>

lemma finish_PcBegin:
  "finish U ex w faults args PcBegin s = runUnit U ex w faults args s"
proof -
  obtain r e where run: "unitRun U ex w args = (r, e)" by (cases "unitRun U ex w args")
  show ?thesis
    by (cases r; cases e)
       (simp_all add: runUnit_def executeCollection_unfold Let_def run
          finish_step[of PcBegin] finish_step[of PcRun]
          finish_PcLog finish_PcCountFailure finish_PcReturn finish_PcUpsert)
qed

subsection \<open>One step of a goroutine\<close>

lemma step_rows:
  "\<exists>new. test_executions (s_db (snd (step U ex w faults args g s)))
            = test_executions (s_db s) @ new
          \<and> map rowSummary new
              @ pendingRows U ex w faults args (fst (step U ex w faults args g s))
            = pendingRows U ex w faults args g"
proof (cases g)
  case PcRun
  then show ?thesis
    by (cases "unitRun U ex w args")
       (auto simp: expectedRow_def split: option.splits)
next
  case (PcUpsert result)
  obtain k d e c where dk: "dispatchKey U args = (k, d, e, c)"
    by (cases "dispatchKey U args") auto
  show ?thesis
  proof (cases "UpsertCollection (s_db s) (f_Upsert faults) (nr_CollectionName result)
                  (cf_FullPath (fst args)) k d e c (w_Now w)")
    case (Inl err)
    then have "f_Upsert faults" by (auto simp: UpsertCollection_def Let_def split: if_splits option.splits)
    with Inl PcUpsert dk show ?thesis by simp
  next
    case (Inr p)
    obtain db1 row where p: "p = (db1, row)" by (cases p)
    from Inr p have "\<not> f_Upsert faults" by (auto simp: UpsertCollection_def)
    with Inr p PcUpsert dk UpsertCollection_keeps[OF Inr[unfolded p]] show ?thesis by simp
  qed
next
  case (PcInsert result dbCollection)
  then show ?thesis
    by (auto simp: CreateTestExecution_def Let_def newExecution_def rowSummary_def
        resultSummary_def)
next
  case (PcResults result stored tests)
  then show ?thesis
    by (cases tests) (auto simp: CreateTestResult_def Let_def)
next
  case (PcReturn err)
  then show ?thesis by (cases err) auto
qed (auto simp: logLine_def incrementFailedRuns_def)

lemma step_rows_mset:
  "mset (map rowSummary (test_executions (s_db (snd (step U ex w faults args g s)))))
     + mset (pendingRows U ex w faults args (fst (step U ex w faults args g s)))
   = mset (map rowSummary (test_executions (s_db s)))
     + mset (pendingRows U ex w faults args g)"
proof -
  from step_rows[of U ex w faults args g s] obtain new where
    a: "test_executions (s_db (snd (step U ex w faults args g s)))
          = test_executions (s_db s) @ new"
    and b: "map rowSummary new
              @ pendingRows U ex w faults args (fst (step U ex w faults args g s))
            = pendingRows U ex w faults args g"
    by blast
  have "mset (pendingRows U ex w faults args g)
          = mset (map rowSummary new)
            + mset (pendingRows U ex w faults args (fst (step U ex w faults args g s)))"
    by (subst b[symmetric]) simp
  with a show ?thesis by simp
qed

lemma step_failures:
  "s_failedRuns (snd (step U ex w faults args g s))
     + int (pendingFailures U ex w faults args (fst (step U ex w faults args g s)))
   = s_failedRuns s + int (pendingFailures U ex w faults args g)"
proof (cases g)
  case PcRun
  obtain r e where run: "unitRun U ex w args = (r, e)" by (cases "unitRun U ex w args")
  from unitRun_result[OF run] PcRun run show ?thesis
    by (cases r; cases e) (auto simp: expectedRow_def)
next
  case (PcUpsert result)
  obtain k d e c where dk: "dispatchKey U args = (k, d, e, c)"
    by (cases "dispatchKey U args") auto
  show ?thesis
  proof (cases "UpsertCollection (s_db s) (f_Upsert faults) (nr_CollectionName result)
                  (cf_FullPath (fst args)) k d e c (w_Now w)")
    case (Inl err)
    then have "f_Upsert faults" by (auto simp: UpsertCollection_def Let_def split: if_splits option.splits)
    with Inl PcUpsert dk show ?thesis by simp
  next
    case (Inr p)
    obtain db1 row where p: "p = (db1, row)" by (cases p)
    from Inr p have "\<not> f_Upsert faults" by (auto simp: UpsertCollection_def)
    with Inr p PcUpsert dk show ?thesis by simp
  qed
next
  case (PcInsert result dbCollection)
  then show ?thesis
    by (auto simp: CreateTestExecution_def Let_def)
next
  case (PcResults result stored tests)
  then show ?thesis
    by (cases tests) (auto simp: CreateTestResult_def Let_def)
next
  case (PcReturn err)
  then show ?thesis by (cases err) auto
qed (auto simp: logLine_def incrementFailedRuns_def)

lemma step_starts:
  "mset (started (s_log (snd (step U ex w faults args g s))))
     + mset (pendingStarts args (fst (step U ex w faults args g s)))
   = mset (started (s_log s)) + mset (pendingStarts args g)"
proof (cases g)
  case PcRun
  then show ?thesis
    by (cases "unitRun U ex w args") (auto split: option.splits)
next
  case (PcLog l k)
  then show ?thesis
    by (simp add: logLine_def started_append)
next
  case (PcUpsert result)
  then show ?thesis
    by (auto split: prod.splits sum.splits)
next
  case (PcInsert result dbCollection)
  then show ?thesis
    by (auto split: prod.splits sum.splits)
next
  case (PcResults result stored tests)
  then show ?thesis
    by (cases tests) (auto split: prod.splits sum.splits)
next
  case (PcReturn err)
  then show ?thesis by (cases err) auto
qed (auto simp: logLine_def incrementFailedRuns_def started_append)

lemma step_keeps:
  "s_totalRuns (snd (step U ex w faults args g s)) = s_totalRuns s
   \<and> s_lastRunTime (snd (step U ex w faults args g s)) = s_lastRunTime s"
proof (cases g)
  case PcRun
  then show ?thesis
    by (cases "unitRun U ex w args") (auto split: option.splits)
next
  case (PcUpsert result)
  then show ?thesis
    by (auto split: prod.splits sum.splits)
next
  case (PcInsert result dbCollection)
  then show ?thesis
    by (auto split: prod.splits sum.splits)
next
  case (PcResults result stored tests)
  then show ?thesis
    by (cases tests) (auto split: prod.splits sum.splits)
next
  case (PcReturn err)
  then show ?thesis by (cases err) auto
qed (auto simp: logLine_def incrementFailedRuns_def)

subsection \<open>The goroutines of a cycle together\<close>

text \<open>
  A quantity of the shared state that every step of a goroutine changes by what the
  goroutine has still to add to it is, at the end of the cycle, its value at the
  beginning plus what the goroutines had to add from their beginning: the order of
  the steps plays no part.
\<close>

lemma stepAt_sum:
  fixes obs :: "Scheduler \<Rightarrow> 'm::comm_monoid_add" and pend :: "nat \<Rightarrow> goroutine \<Rightarrow> 'm"
  assumes st: "\<And>i g s. obs (snd (step U ex w (faultsOf i) (units ! i) g s))
                          + pend i (fst (step U ex w (faultsOf i) (units ! i) g s))
                        = obs s + pend i g"
  shows "length (fst (stepAt U ex w faultsOf units i (gs, s))) = length gs
         \<and> obs (snd (stepAt U ex w faultsOf units i (gs, s)))
             + (\<Sum>j<length gs. pend j (fst (stepAt U ex w faultsOf units i (gs, s)) ! j))
           = obs s + (\<Sum>j<length gs. pend j (gs ! j))"
proof (cases "i < length gs")
  case False
  then show ?thesis by (simp add: stepAt_def)
next
  case True
  let ?g = "fst (step U ex w (faultsOf i) (units ! i) (gs ! i) s)"
  let ?s = "snd (step U ex w (faultsOf i) (units ! i) (gs ! i) s)"
  let ?R = "\<Sum>j\<in>{..<length gs} - {i}. pend j (gs ! j)"
  from True have eq: "stepAt U ex w faultsOf units i (gs, s) = (gs[i := ?g], ?s)"
    by (simp add: stepAt_def split_beta)
  from True have a: "(\<Sum>j<length gs. pend j (gs[i := ?g] ! j)) = pend i ?g + ?R"
    by (subst sum.remove[of _ i]) (auto intro!: arg_cong2[where f="(+)"] sum.cong)
  from True have b: "(\<Sum>j<length gs. pend j (gs ! j)) = pend i (gs ! i) + ?R"
    by (subst sum.remove[of _ i]) auto
  have "obs ?s + (pend i ?g + ?R) = (obs ?s + pend i ?g) + ?R"
    by (simp add: add.assoc)
  also have "\<dots> = (obs s + pend i (gs ! i)) + ?R" by (simp only: st)
  also have "\<dots> = obs s + (pend i (gs ! i) + ?R)" by (simp add: add.assoc)
  finally show ?thesis by (simp add: eq a b)
qed

lemma fold_stepAt_sum:
  fixes obs :: "Scheduler \<Rightarrow> 'm::comm_monoid_add" and pend :: "nat \<Rightarrow> goroutine \<Rightarrow> 'm"
  assumes st: "\<And>i g s. obs (snd (step U ex w (faultsOf i) (units ! i) g s))
                          + pend i (fst (step U ex w (faultsOf i) (units ! i) g s))
                        = obs s + pend i g"
  shows "length (fst (fold (stepAt U ex w faultsOf units) schedule (gs, s))) = length gs
         \<and> obs (snd (fold (stepAt U ex w faultsOf units) schedule (gs, s)))
             + (\<Sum>j<length gs.
                  pend j (fst (fold (stepAt U ex w faultsOf units) schedule (gs, s)) ! j))
           = obs s + (\<Sum>j<length gs. pend j (gs ! j))"
proof (induction schedule arbitrary: gs s)
  case Nil
  show ?case by simp
next
  case (Cons i schedule)
  obtain gs1 s1 where one: "stepAt U ex w faultsOf units i (gs, s) = (gs1, s1)"
    by (cases "stepAt U ex w faultsOf units i (gs, s)")
  from stepAt_sum[of obs U ex w faultsOf units pend i gs s, OF st] one
  have l: "length gs1 = length gs"
    and e: "obs s1 + (\<Sum>j<length gs. pend j (gs1 ! j)) = obs s + (\<Sum>j<length gs. pend j (gs ! j))"
    by simp_all
  from Cons[of gs1 s1] l e show ?case by (simp add: one)
qed

lemma finish_sum:
  fixes obs :: "Scheduler \<Rightarrow> 'm::comm_monoid_add" and pend :: "goroutine \<Rightarrow> 'm"
  assumes "\<And>g s. obs (snd (step U ex w faults args g s))
                      + pend (fst (step U ex w faults args g s))
                    = obs s + pend g"
  shows "obs (finish U ex w faults args g s) + pend PcFinished = obs s + pend g"
  using assms
proof (induction U ex w faults args g s rule: finish.induct)
  case (1 U ex w faults args g s)
  show ?case
  proof (cases "g = PcFinished")
    case True
    then show ?thesis by (simp add: finish_PcFinished)
  next
    case False
    let ?g = "fst (step U ex w faults args g s)"
    let ?s = "snd (step U ex w faults args g s)"
    have "obs (finish U ex w faults args ?g ?s) + pend PcFinished = obs ?s + pend ?g"
      by (rule "1.IH"[OF False prod.collapse]) (simp_all add: "1.prems")
    with "1.prems"[of g s] show ?thesis by (simp add: finish_step[OF False])
  qed
qed

lemma waitAll_sum:
  fixes obs :: "Scheduler \<Rightarrow> 'm::comm_monoid_add" and pend :: "nat \<Rightarrow> goroutine \<Rightarrow> 'm"
  assumes st: "\<And>i g s. obs (snd (step U ex w (faultsOf i) (units ! i) g s))
                          + pend i (fst (step U ex w (faultsOf i) (units ! i) g s))
                        = obs s + pend i g"
      and fin: "\<And>i. pend i PcFinished = 0"
  shows "obs (waitAll U ex w faultsOf units gs s) = obs s + (\<Sum>i<length gs. pend i (gs ! i))"
proof -
  have "obs (fold (\<lambda>i. finish U ex w (faultsOf i) (units ! i) (gs ! i)) [0..<n] s)
          = obs s + (\<Sum>i<n. pend i (gs ! i))" for n
  proof (induction n)
    case 0
    show ?case by simp
  next
    case (Suc n)
    let ?s = "fold (\<lambda>i. finish U ex w (faultsOf i) (units ! i) (gs ! i)) [0..<n] s"
    from finish_sum[of obs U ex w "faultsOf n" "units ! n" "pend n" "gs ! n" ?s] st fin
    have "obs (finish U ex w (faultsOf n) (units ! n) (gs ! n) ?s) = obs ?s + pend n (gs ! n)"
      by simp
    with Suc show ?case by (simp add: add.assoc)
  qed
  then show ?thesis by (simp add: waitAll_def)
qed

lemma dispatchAndWait_sum:
  fixes obs :: "Scheduler \<Rightarrow> 'm::comm_monoid_add" and pend :: "nat \<Rightarrow> goroutine \<Rightarrow> 'm"
  assumes st: "\<And>i g s. obs (snd (step U ex w (faultsOf i) (units ! i) g s))
                          + pend i (fst (step U ex w (faultsOf i) (units ! i) g s))
                        = obs s + pend i g"
      and fin: "\<And>i. pend i PcFinished = 0"
  shows "obs (dispatchAndWait U ex w faultsOf units schedule s)
           = obs s + (\<Sum>i<length units. pend i PcBegin)"
proof -
  let ?gs = "map (\<lambda>unit. PcBegin) units"
  obtain gs1 s1 where f: "fold (stepAt U ex w faultsOf units) schedule (?gs, s) = (gs1, s1)"
    by (cases "fold (stepAt U ex w faultsOf units) schedule (?gs, s)")
  from fold_stepAt_sum[of obs U ex w faultsOf units pend schedule ?gs s, OF st] f
  have l: "length gs1 = length units"
    and e: "obs s1 + (\<Sum>j<length units. pend j (gs1 ! j))
              = obs s + (\<Sum>j<length units. pend j (?gs ! j))"
    by simp_all
  have "(\<Sum>j<length units. pend j (?gs ! j)) = (\<Sum>j<length units. pend j PcBegin)"
    by (rule sum.cong) simp_all
  with e l waitAll_sum[of obs U ex w faultsOf units pend gs1 s1, OF st fin]
  show ?thesis by (simp add: dispatchAndWait_def f)
qed

text \<open>
  A relation between states of the shared state that holds across every step of a
  goroutine holds across the cycle.
\<close>

lemma fold_stepAt_preserved:
  assumes r: "\<And>s. R s s" and tr: "\<And>a b c. R a b \<Longrightarrow> R b c \<Longrightarrow> R a c"
      and st: "\<And>i g s. R s (snd (step U ex w (faultsOf i) (units ! i) g s))"
  shows "R s (snd (fold (stepAt U ex w faultsOf units) schedule (gs, s)))"
proof (induction schedule arbitrary: gs s)
  case Nil
  show ?case by (simp add: r)
next
  case (Cons i schedule)
  obtain gs1 s1 where one: "stepAt U ex w faultsOf units i (gs, s) = (gs1, s1)"
    by (cases "stepAt U ex w faultsOf units i (gs, s)")
  have "R s s1"
  proof (cases "i < length gs")
    case True
    with one have "s1 = snd (step U ex w (faultsOf i) (units ! i) (gs ! i) s)"
      by (auto simp: stepAt_def split_beta)
    then show ?thesis by (simp add: st)
  next
    case False
    with one show ?thesis by (simp add: stepAt_def r)
  qed
  from tr[OF this Cons[where gs=gs1 and s=s1]] show ?case by (simp add: one)
qed

lemma finish_preserved:
  assumes "\<And>s. R s s" and "\<And>a b c. R a b \<Longrightarrow> R b c \<Longrightarrow> R a c"
      and "\<And>g s. R s (snd (step U ex w faults args g s))"
  shows "R s (finish U ex w faults args g s)"
  using assms
proof (induction U ex w faults args g s rule: finish.induct)
  case (1 U ex w faults args g s)
  show ?case
  proof (cases "g = PcFinished")
    case True
    then show ?thesis by (simp add: finish_PcFinished "1.prems"(1))
  next
    case False
    let ?g = "fst (step U ex w faults args g s)"
    let ?s = "snd (step U ex w faults args g s)"
    have "R ?s (finish U ex w faults args ?g ?s)"
      by (rule "1.IH"[OF False prod.collapse]) (simp_all add: "1.prems")
    with "1.prems"(2)[OF "1.prems"(3)[of s g]] show ?thesis
      by (simp add: finish_step[OF False])
  qed
qed

lemma waitAll_preserved:
  assumes r: "\<And>s. R s s" and tr: "\<And>a b c. R a b \<Longrightarrow> R b c \<Longrightarrow> R a c"
      and st: "\<And>i g s. R s (snd (step U ex w (faultsOf i) (units ! i) g s))"
  shows "R s (waitAll U ex w faultsOf units gs s)"
proof -
  have "R s (fold (\<lambda>i. finish U ex w (faultsOf i) (units ! i) (gs ! i)) [0..<n] s)" for n
  proof (induction n)
    case 0
    show ?case by (simp add: r)
  next
    case (Suc n)
    let ?s = "fold (\<lambda>i. finish U ex w (faultsOf i) (units ! i) (gs ! i)) [0..<n] s"
    have "R ?s (finish U ex w (faultsOf n) (units ! n) (gs ! n) ?s)"
      by (rule finish_preserved[of R, OF r tr st])
    from tr[OF Suc this] show ?case by simp
  qed
  then show ?thesis by (simp add: waitAll_def)
qed

lemma dispatchAndWait_preserved:
  assumes r: "\<And>s. R s s" and tr: "\<And>a b c. R a b \<Longrightarrow> R b c \<Longrightarrow> R a c"
      and st: "\<And>i g s. R s (snd (step U ex w (faultsOf i) (units ! i) g s))"
  shows "R s (dispatchAndWait U ex w faultsOf units schedule s)"
proof -
  let ?gs = "map (\<lambda>unit. PcBegin) units"
  obtain gs1 s1 where f: "fold (stepAt U ex w faultsOf units) schedule (?gs, s) = (gs1, s1)"
    by (cases "fold (stepAt U ex w faultsOf units) schedule (?gs, s)")
  from fold_stepAt_preserved[of R, OF r tr st, where s=s and schedule=schedule and gs="?gs"] f
  have a: "R s s1" by simp
  have b: "R s1 (waitAll U ex w faultsOf units gs1 s1)"
    by (rule waitAll_preserved[of R, OF r tr st])
  from tr[OF a b] show ?thesis by (simp add: dispatchAndWait_def f)
qed

subsection \<open>What a cycle adds\<close>

lemma sum_list_enumerate:
  fixes f :: "nat \<times> 'a \<Rightarrow> 'm::comm_monoid_add"
  shows "sum_list (map f (enumerate 0 xs)) = (\<Sum>i<length xs. f (i, xs ! i))"
proof -
  have "sum_list (map f (enumerate 0 xs))
          = (\<Sum>i<length xs. map f (enumerate 0 xs) ! i)"
    by (simp add: sum_list_sum_nth atLeast0LessThan)
  also have "\<dots> = (\<Sum>i<length xs. f (i, xs ! i))"
    by (rule sum.cong) (simp_all add: nth_enumerate_eq)
  finally show ?thesis .
qed

lemma expectedRows_sum:
  "mset (expectedRows U ex w faultsOf (enumerate 0 units))
     = (\<Sum>i<length units. mset (expectedRow U ex w (faultsOf i) (units ! i)))"
proof -
  have "mset (expectedRows U ex w faultsOf (enumerate 0 units))
          = sum_list (map (\<lambda>unit. mset (expectedRow U ex w (faultsOf (fst unit)) (snd unit)))
                        (enumerate 0 units))"
    by (simp add: expectedRows_def mset_concat comp_def)
  then show ?thesis by (simp add: sum_list_enumerate)
qed

lemma length_filter_sum_list:
  "int (length (filter P xs)) = sum_list (map (\<lambda>x. if P x then 1 else 0) xs)"
  by (induction xs) simp_all

lemma failedUnits_sum:
  "int (failedUnits U ex w faultsOf (enumerate 0 units))
     = (\<Sum>i<length units.
          int (pendingFailures U ex w (faultsOf i) (units ! i) PcBegin))"
proof -
  have "int (failedUnits U ex w faultsOf (enumerate 0 units))
          = (\<Sum>i<length units.
               if expectedRow U ex w (faultsOf i) (units ! i) = [] then 1 else 0)"
    by (simp add: failedUnits_def length_filter_sum_list sum_list_enumerate)
  also have "\<dots> = (\<Sum>i<length units.
                      int (pendingFailures U ex w (faultsOf i) (units ! i) PcBegin))"
    by (rule sum.cong) simp_all
  finally show ?thesis .
qed

lemma starts_sum:
  "mset (map (\<lambda>unit. cf_Name (fst unit)) units)
     = (\<Sum>i<length units. mset [cf_Name (fst (units ! i))])"
proof -
  have "mset (map (\<lambda>unit. cf_Name (fst unit)) units)
          = sum_list (map (\<lambda>unit. mset [cf_Name (fst unit)]) units)"
    by (induction units) simp_all
  also have "\<dots> = (\<Sum>i<length units. map (\<lambda>unit. mset [cf_Name (fst unit)]) units ! i)"
    by (simp add: sum_list_sum_nth atLeast0LessThan)
  also have "\<dots> = (\<Sum>i<length units. mset [cf_Name (fst (units ! i))])"
    by (rule sum.cong) simp_all
  finally show ?thesis .
qed

lemma dispatchAndWait_rows:
  "mset (map rowSummary (test_executions (s_db (dispatchAndWait U ex w faultsOf units schedule s))))
     = mset (map rowSummary (test_executions (s_db s)))
       + mset (expectedRows U ex w faultsOf (enumerate 0 units))"
proof -
  have "mset (map rowSummary
               (test_executions (s_db (dispatchAndWait U ex w faultsOf units schedule s))))
          = mset (map rowSummary (test_executions (s_db s)))
            + (\<Sum>i<length units. mset (pendingRows U ex w (faultsOf i) (units ! i) PcBegin))"
    by (rule dispatchAndWait_sum[where
          obs="\<lambda>s. mset (map rowSummary (test_executions (s_db s)))"
          and pend="\<lambda>i g. mset (pendingRows U ex w (faultsOf i) (units ! i) g)"])
       (rule step_rows_mset, simp)
  also have "(\<Sum>i<length units. mset (pendingRows U ex w (faultsOf i) (units ! i) PcBegin))
               = mset (expectedRows U ex w faultsOf (enumerate 0 units))"
    unfolding expectedRows_sum by (rule sum.cong) simp_all
  finally show ?thesis .
qed

lemma dispatchAndWait_failures:
  "s_failedRuns (dispatchAndWait U ex w faultsOf units schedule s)
     = s_failedRuns s + int (failedUnits U ex w faultsOf (enumerate 0 units))"
proof -
  have "s_failedRuns (dispatchAndWait U ex w faultsOf units schedule s)
          = s_failedRuns s
            + (\<Sum>i<length units.
                 int (pendingFailures U ex w (faultsOf i) (units ! i) PcBegin))"
    by (rule dispatchAndWait_sum[where obs=s_failedRuns
          and pend="\<lambda>i g. int (pendingFailures U ex w (faultsOf i) (units ! i) g)"])
       (rule step_failures, simp)
  then show ?thesis by (simp only: failedUnits_sum)
qed

lemma dispatchAndWait_starts:
  "mset (started (s_log (dispatchAndWait U ex w faultsOf units schedule s)))
     = mset (started (s_log s)) + mset (map (\<lambda>unit. cf_Name (fst unit)) units)"
proof -
  have "mset (started (s_log (dispatchAndWait U ex w faultsOf units schedule s)))
          = mset (started (s_log s))
            + (\<Sum>i<length units. mset (pendingStarts (units ! i) PcBegin))"
    by (rule dispatchAndWait_sum[where obs="\<lambda>s. mset (started (s_log s))"
          and pend="\<lambda>i g. mset (pendingStarts (units ! i) g)"])
       (rule step_starts, simp)
  also have "(\<Sum>i<length units. mset (pendingStarts (units ! i) PcBegin))
               = mset (map (\<lambda>unit. cf_Name (fst unit)) units)"
    unfolding starts_sum by (rule sum.cong) simp_all
  finally show ?thesis .
qed

lemma dispatchAndWait_keeps:
  "(\<exists>new. test_executions (s_db (dispatchAndWait U ex w faultsOf units schedule s))
            = test_executions (s_db s) @ new)
   \<and> s_totalRuns (dispatchAndWait U ex w faultsOf units schedule s) = s_totalRuns s
   \<and> s_lastRunTime (dispatchAndWait U ex w faultsOf units schedule s) = s_lastRunTime s"
proof (rule dispatchAndWait_preserved[of
      "\<lambda>s s'. (\<exists>new. test_executions (s_db s') = test_executions (s_db s) @ new)
               \<and> s_totalRuns s' = s_totalRuns s \<and> s_lastRunTime s' = s_lastRunTime s"])
  fix s :: Scheduler
  show "(\<exists>new. test_executions (s_db s) = test_executions (s_db s) @ new)
          \<and> s_totalRuns s = s_totalRuns s \<and> s_lastRunTime s = s_lastRunTime s"
    by simp
next
  fix a b c :: Scheduler
  assume "(\<exists>new. test_executions (s_db b) = test_executions (s_db a) @ new)
            \<and> s_totalRuns b = s_totalRuns a \<and> s_lastRunTime b = s_lastRunTime a"
     and "(\<exists>new. test_executions (s_db c) = test_executions (s_db b) @ new)
            \<and> s_totalRuns c = s_totalRuns b \<and> s_lastRunTime c = s_lastRunTime b"
  then show "(\<exists>new. test_executions (s_db c) = test_executions (s_db a) @ new)
            \<and> s_totalRuns c = s_totalRuns a \<and> s_lastRunTime c = s_lastRunTime a"
    by auto
next
  fix i g and s :: Scheduler
  from step_rows[of U ex w "faultsOf i" "units ! i" g s]
    step_keeps[of U ex w "faultsOf i" "units ! i" g s]
  show "(\<exists>new. test_executions (s_db (snd (step U ex w (faultsOf i) (units ! i) g s)))
                  = test_executions (s_db s) @ new)
          \<and> s_totalRuns (snd (step U ex w (faultsOf i) (units ! i) g s)) = s_totalRuns s
          \<and> s_lastRunTime (snd (step U ex w (faultsOf i) (units ! i) g s)) = s_lastRunTime s"
    by blast
qed

text \<open>
  The run in which no goroutine steps before \<open>runOnce\<close> waits is the run of the units
  one after the other in dispatch order.
\<close>

lemma dispatchAndWait_sequential:
  "dispatchAndWait U ex w faultsOf units [] s
     = fold (\<lambda>i. runUnit U ex w (faultsOf i) (units ! i)) [0..<length units] s"
proof -
  have "fold (\<lambda>i. finish U ex w (faultsOf i) (units ! i) (map (\<lambda>unit. PcBegin) units ! i))
          [0..<length units] s
        = fold (\<lambda>i. runUnit U ex w (faultsOf i) (units ! i)) [0..<length units] s"
    by (rule fold_cong) (auto simp: finish_PcBegin intro!: ext)
  then show ?thesis by (simp add: dispatchAndWait_def waitAll_def)
qed

lemma runOnce_cycle:
  assumes "ScanGroups U lv root = Inr (eh, groups)"
  shows "(\<exists>rows. test_executions (s_db (runOnce U lv ex w root faultsOf schedule s))
                    = test_executions (s_db s) @ rows
                \<and> mset (map rowSummary rows)
                    = mset (expectedRows U ex w faultsOf
                              (enumerate 0 (dispatchUnits eh groups))))
         \<and> s_failedRuns (runOnce U lv ex w root faultsOf schedule s)
             = s_failedRuns s
               + int (failedUnits U ex w faultsOf (enumerate 0 (dispatchUnits eh groups)))
         \<and> s_totalRuns (runOnce U lv ex w root faultsOf schedule s) = s_totalRuns s + 1"
proof (cases "groups = []")
  case True
  with assms show ?thesis
    by (simp add: runOnce_def Let_def logLine_def dispatchUnits_def expectedRows_def
        failedUnits_def)
next
  case False
  let ?s = "s\<lparr> s_lastRunTime := w_Now w, s_totalRuns := s_totalRuns s + 1 \<rparr>"
  let ?d = "dispatchAndWait U ex w faultsOf (dispatchUnits eh groups) schedule ?s"
  from False assms have eq: "runOnce U lv ex w root faultsOf schedule s
                               = logLine LogCycleCompleted ?d"
    by (simp add: runOnce_def Let_def)
  from dispatchAndWait_keeps[of U ex w faultsOf "dispatchUnits eh groups" schedule ?s]
  obtain rows where
    rows: "test_executions (s_db ?d) = test_executions (s_db s) @ rows"
    and tot: "s_totalRuns ?d = s_totalRuns s + 1"
    by auto
  from dispatchAndWait_rows[of U ex w faultsOf "dispatchUnits eh groups" schedule ?s] rows
  have m: "mset (map rowSummary rows)
             = mset (expectedRows U ex w faultsOf (enumerate 0 (dispatchUnits eh groups)))"
    by simp
  from dispatchAndWait_failures[of U ex w faultsOf "dispatchUnits eh groups" schedule ?s]
  have f: "s_failedRuns ?d
             = s_failedRuns s
               + int (failedUnits U ex w faultsOf (enumerate 0 (dispatchUnits eh groups)))"
    by simp
  from rows m f tot show ?thesis unfolding eq by (simp add: logLine_def)
qed

text \<open>
  Whatever the runner and the store do and in whatever order the goroutines step, a
  cycle starts every unit that the scan dispatches, once.
\<close>

lemma runOnce_started:
  assumes "ScanGroups U lv root = Inr (eh, groups)"
  shows "mset (started (s_log (runOnce U lv ex w root faultsOf schedule s)))
           = mset (started (s_log s))
             + mset (map (\<lambda>unit. cf_Name (fst unit)) (dispatchUnits eh groups))"
proof (cases "groups = []")
  case True
  with assms show ?thesis
    by (simp add: runOnce_def Let_def logLine_def dispatchUnits_def started_append)
next
  case False
  let ?s = "s\<lparr> s_lastRunTime := w_Now w, s_totalRuns := s_totalRuns s + 1 \<rparr>"
  from False assms
    dispatchAndWait_starts[of U ex w faultsOf "dispatchUnits eh groups" schedule ?s]
  show ?thesis
    by (simp add: runOnce_def Let_def logLine_def started_append)
qed

subsection \<open>The unit and the cycle\<close>

lemma ex_pair_scan: "ScanGroups U lv ex_pair_root = Inr ([ex_prod_env], [ex_pair_group])"
  by (cases lv)
     (simp_all add: ScanGroups_def ex_pair_root_def scanRootEntry_def HasPrefix_def
      scanSubdirectory_def scanEntry_def parseEnvironmentFile_def Let_def HasSuffix_def
      ToLower_def isASCII_def toLower_char_def makeGroups_def envGroupStep_def ex_prod_env_def
      ex_pair_group_def ex_checkout_col_def ex_auth_col_def)

lemma ex_pair_unitRun:
  "unitRun U ex_executor ex_pair_world (dispatchArgs [ex_prod_env] ex_pair_group ex_auth_col)
     = (None, Some ParseNewmanOutputFailed)
   \<and> unitRun U ex_executor ex_pair_world
        (dispatchArgs [ex_prod_env] ex_pair_group ex_checkout_col)
     = (Some ex_result, Some (NewmanExecutionFailed ''boom''))"
  by (simp add: unitRun_def dispatchArgs_def dispatchKey_def groupEnv_def ex_prod_env_def
      ex_pair_group_def ex_checkout_col_def ex_auth_col_def GenerateCompositeKey_def Let_def
      TrimSuffix_def HasSuffix_def ToLower_def isASCII_def toLower_char_def Base_def
      Execute_def ex_pair_world_def ex_executor_def ex_result_def)

lemma ex_pair_expected:
  "expectedRows U ex_executor ex_pair_world (\<lambda>i. ex_faults)
      (enumerate 0 (dispatchUnits [ex_prod_env] [ex_pair_group]))
     = [(''Checkout'', Some ''boom'', 5, 3, 2, 100)]
   \<and> failedUnits U ex_executor ex_pair_world (\<lambda>i. ex_faults)
        (enumerate 0 (dispatchUnits [ex_prod_env] [ex_pair_group])) = 1"
proof -
  have u: "dispatchUnits [ex_prod_env] [ex_pair_group]
             = [dispatchArgs [ex_prod_env] ex_pair_group ex_auth_col,
                dispatchArgs [ex_prod_env] ex_pair_group ex_checkout_col]"
    by (simp add: dispatchUnits_def ex_pair_group_def)
  show ?thesis
    unfolding u
    by (simp add: expectedRows_def failedUnits_def expectedRow_def ex_pair_unitRun
        ex_faults_def resultSummary_def ex_result_def)
qed

text \<open>
  Claim C9.  When the runner returns a result, with or without an error, and the store
  accepts the upsert and the execution row, the unit returns no error, appends exactly
  one execution row that carries the result's name, error, counts and duration, and
  leaves the failure counter as it is; a result that comes with an error has a non-null
  error field, so the row has it too.  When the runner returns no result, or the store
  refuses the upsert or the execution row, the unit returns an error, adds no execution
  row and increments the failure counter; with no result it leaves the store as it is.
  A cycle whose scan succeeds goes on past every failed unit: in whatever order the
  goroutines of the units step, the cycle ends, keeps the execution rows that the
  store held, adds the rows of exactly the units that have a result and whose writes
  the store accepts, counts one failure for each of the other units, and counts as one
  run.
\<close>

theorem executeCollection_partial_result:
  assumes "ScanGroups U lv root = Inr (eh, groups)"
  shows "(\<forall>result. fst (unitRun U ex w args) = Some result
            \<and> \<not> f_Upsert faults \<and> \<not> f_CreateExecution faults \<longrightarrow>
            snd (executeCollection U ex w faults args s) = None
            \<and> (\<exists>row. test_executions (s_db (fst (executeCollection U ex w faults args s)))
                        = test_executions (s_db s) @ [row]
                      \<and> rowSummary row = resultSummary result)
            \<and> s_failedRuns (fst (executeCollection U ex w faults args s)) = s_failedRuns s)
         \<and> (\<forall>result err. unitRun U ex w args = (Some result, Some err) \<longrightarrow>
              nr_Error result \<noteq> None)
         \<and> (fst (unitRun U ex w args) = None \<or> f_Upsert faults \<or> f_CreateExecution faults \<longrightarrow>
            snd (executeCollection U ex w faults args s) \<noteq> None
            \<and> test_executions (s_db (fst (executeCollection U ex w faults args s)))
                = test_executions (s_db s)
            \<and> s_failedRuns (fst (executeCollection U ex w faults args s))
                = s_failedRuns s + 1)
         \<and> (fst (unitRun U ex w args) = None \<longrightarrow>
            s_db (fst (executeCollection U ex w faults args s)) = s_db s)
         \<and> (\<exists>rows. test_executions (s_db (runOnce U lv ex w root faultsOf schedule s0))
                      = test_executions (s_db s0) @ rows
                  \<and> mset (map rowSummary rows)
                      = mset (expectedRows U ex w faultsOf
                                (enumerate 0 (dispatchUnits eh groups))))
         \<and> s_failedRuns (runOnce U lv ex w root faultsOf schedule s0)
             = s_failedRuns s0
               + int (failedUnits U ex w faultsOf (enumerate 0 (dispatchUnits eh groups)))
         \<and> s_totalRuns (runOnce U lv ex w root faultsOf schedule s0) = s_totalRuns s0 + 1"
proof -
  have a: "\<forall>result. fst (unitRun U ex w args) = Some result
            \<and> \<not> f_Upsert faults \<and> \<not> f_CreateExecution faults \<longrightarrow>
            snd (executeCollection U ex w faults args s) = None
            \<and> (\<exists>row. test_executions (s_db (fst (executeCollection U ex w faults args s)))
                        = test_executions (s_db s) @ [row]
                      \<and> rowSummary row = resultSummary result)
            \<and> s_failedRuns (fst (executeCollection U ex w faults args s)) = s_failedRuns s"
    using executeCollection_persists[of U ex w args _ faults s] by blast
  have b: "\<forall>result err. unitRun U ex w args = (Some result, Some err) \<longrightarrow>
              nr_Error result \<noteq> None"
    using unitRun_result[of U ex w args] by auto
  have c: "fst (unitRun U ex w args) = None \<or> f_Upsert faults \<or> f_CreateExecution faults \<longrightarrow>
            snd (executeCollection U ex w faults args s) \<noteq> None
            \<and> test_executions (s_db (fst (executeCollection U ex w faults args s)))
                = test_executions (s_db s)
            \<and> s_failedRuns (fst (executeCollection U ex w faults args s))
                = s_failedRuns s + 1"
    using executeCollection_fails[of U ex w args faults s] by blast
  have d: "fst (unitRun U ex w args) = None \<longrightarrow>
            s_db (fst (executeCollection U ex w faults args s)) = s_db s"
    using executeCollection_no_result[of U ex w args faults s] by blast
  from a b c d runOnce_cycle[OF assms, of ex w faultsOf schedule s0]
  show ?thesis by (intro conjI) blast+
qed

text \<open>
  A unit whose runner fails after printing a result, with a store that accepts the
  writes and with one that refuses the upsert; and a cycle of two units with
  interleaved steps, where the runner of the unit dispatched first gives no result and
  the runner of the second fails after printing a result.
\<close>

theorem executeCollection_partial_result_witness:
  "\<forall>U. unitRun U ex_executor ex_world (dispatchArgs [ex_prod_env] ex_prod_group ex_checkout_col)
       = (Some ex_result, Some (NewmanExecutionFailed ''boom''))
     \<and> snd (executeCollection U ex_executor ex_world ex_faults
               (dispatchArgs [ex_prod_env] ex_prod_group ex_checkout_col) ex_scheduler) = None
     \<and> map rowSummary
         (test_executions (s_db (fst (executeCollection U ex_executor ex_world ex_faults
               (dispatchArgs [ex_prod_env] ex_prod_group ex_checkout_col) ex_scheduler))))
         = [(''Checkout'', Some ''boom'', 5, 3, 2, 100)]
     \<and> s_failedRuns (fst (executeCollection U ex_executor ex_world ex_faults
               (dispatchArgs [ex_prod_env] ex_prod_group ex_checkout_col) ex_scheduler)) = 0
     \<and> snd (executeCollection U ex_executor ex_world ex_faults_upsert
               (dispatchArgs [ex_prod_env] ex_prod_group ex_checkout_col) ex_scheduler) \<noteq> None
     \<and> s_failedRuns (fst (executeCollection U ex_executor ex_world ex_faults_upsert
               (dispatchArgs [ex_prod_env] ex_prod_group ex_checkout_col) ex_scheduler)) = 1
     \<and> ScanGroups U PerIteration ex_pair_root = Inr ([ex_prod_env], [ex_pair_group])
     \<and> map rowSummary
         (test_executions (s_db (runOnce U PerIteration ex_executor ex_pair_world ex_pair_root
               (\<lambda>i. ex_faults) [1, 0, 1, 0, 0] ex_scheduler)))
         = [(''Checkout'', Some ''boom'', 5, 3, 2, 100)]
     \<and> s_failedRuns (runOnce U PerIteration ex_executor ex_pair_world ex_pair_root
               (\<lambda>i. ex_faults) [1, 0, 1, 0, 0] ex_scheduler) = 1
     \<and> s_totalRuns (runOnce U PerIteration ex_executor ex_pair_world ex_pair_root
               (\<lambda>i. ex_faults) [1, 0, 1, 0, 0] ex_scheduler) = 1"
proof
  fix U
  let ?args = "dispatchArgs [ex_prod_env] ex_prod_group ex_checkout_col"
  let ?run = "runOnce U PerIteration ex_executor ex_pair_world ex_pair_root
                (\<lambda>i. ex_faults) [1, 0, 1, 0, 0] ex_scheduler"
  have f: "\<not> f_Upsert ex_faults" "\<not> f_CreateExecution ex_faults" "f_Upsert ex_faults_upsert"
    by (simp_all add: ex_faults_def ex_faults_upsert_def)
  have u: "unitRun U ex_executor ex_world ?args
             = (Some ex_result, Some (NewmanExecutionFailed ''boom''))"
    by (rule ex_unitRun)
  have sc: "ScanGroups U PerIteration ex_pair_root = Inr ([ex_prod_env], [ex_pair_group])"
    by (rule ex_pair_scan)
  note ok = executeCollection_partial_result[OF sc, where ex=ex_executor and w=ex_world
      and args="?args" and faults=ex_faults and s=ex_scheduler
      and faultsOf="\<lambda>i. ex_faults" and schedule="[]" and s0=ex_scheduler,
      THEN conjunct1]
  note refused = executeCollection_partial_result[OF sc, where ex=ex_executor and w=ex_world
      and args="?args" and faults=ex_faults_upsert and s=ex_scheduler
      and faultsOf="\<lambda>i. ex_faults" and schedule="[]" and s0=ex_scheduler,
      THEN conjunct2, THEN conjunct2, THEN conjunct1]
  note cycle = executeCollection_partial_result[OF sc, where ex=ex_executor
      and w=ex_pair_world and args="?args" and faults=ex_faults and s=ex_scheduler
      and faultsOf="\<lambda>i. ex_faults" and schedule="[1, 0, 1, 0, 0]" and s0=ex_scheduler,
      THEN conjunct2, THEN conjunct2, THEN conjunct2, THEN conjunct2]
  from ok u f have
    "snd (executeCollection U ex_executor ex_world ex_faults ?args ex_scheduler) = None
     \<and> (\<exists>row. test_executions (s_db (fst (executeCollection U ex_executor ex_world
                    ex_faults ?args ex_scheduler)))
                 = test_executions (s_db ex_scheduler) @ [row]
               \<and> rowSummary row = resultSummary ex_result)
     \<and> s_failedRuns (fst (executeCollection U ex_executor ex_world ex_faults ?args
           ex_scheduler)) = s_failedRuns ex_scheduler"
    by simp
  then obtain row where
    r: "snd (executeCollection U ex_executor ex_world ex_faults ?args ex_scheduler) = None"
       "test_executions (s_db (fst (executeCollection U ex_executor ex_world ex_faults ?args
           ex_scheduler))) = test_executions (s_db ex_scheduler) @ [row]"
       "rowSummary row = resultSummary ex_result"
       "s_failedRuns (fst (executeCollection U ex_executor ex_world ex_faults ?args
           ex_scheduler)) = s_failedRuns ex_scheduler"
    by blast
  from refused f have
    q: "snd (executeCollection U ex_executor ex_world ex_faults_upsert ?args ex_scheduler)
          \<noteq> None"
       "s_failedRuns (fst (executeCollection U ex_executor ex_world ex_faults_upsert ?args
           ex_scheduler)) = s_failedRuns ex_scheduler + 1"
    by simp_all
  have rows: "map rowSummary
         (test_executions (s_db (fst (executeCollection U ex_executor ex_world ex_faults
               ?args ex_scheduler)))) = [(''Checkout'', Some ''boom'', 5, 3, 2, 100)]"
    using r(2,3) by (simp add: ex_scheduler_def ex_store_def ex_result_def resultSummary_def)
  from cycle obtain added where
    c: "test_executions (s_db ?run) = test_executions (s_db ex_scheduler) @ added"
       "mset (map rowSummary added)
          = mset (expectedRows U ex_executor ex_pair_world (\<lambda>i. ex_faults)
                    (enumerate 0 (dispatchUnits [ex_prod_env] [ex_pair_group])))"
       "s_failedRuns ?run
          = s_failedRuns ex_scheduler
            + int (failedUnits U ex_executor ex_pair_world (\<lambda>i. ex_faults)
                     (enumerate 0 (dispatchUnits [ex_prod_env] [ex_pair_group])))"
       "s_totalRuns ?run = s_totalRuns ex_scheduler + 1"
    by blast
  from c(2) have "map rowSummary added = [(''Checkout'', Some ''boom'', 5, 3, 2, 100)]"
    by (simp only: ex_pair_expected mset.simps mset_single_iff)
  with c(1) have crows: "map rowSummary (test_executions (s_db ?run))
                           = [(''Checkout'', Some ''boom'', 5, 3, 2, 100)]"
    by (simp add: ex_scheduler_def ex_store_def)
  from c(3) have cfail: "s_failedRuns ?run = 1"
    by (simp add: ex_pair_expected ex_scheduler_def)
  from c(4) have ctot: "s_totalRuns ?run = 1"
    by (simp add: ex_scheduler_def)
  from u r(1) rows r(4) q sc crows cfail ctot
  show "unitRun U ex_executor ex_world ?args
       = (Some ex_result, Some (NewmanExecutionFailed ''boom''))
     \<and> snd (executeCollection U ex_executor ex_world ex_faults ?args ex_scheduler) = None
     \<and> map rowSummary
         (test_executions (s_db (fst (executeCollection U ex_executor ex_world ex_faults
               ?args ex_scheduler))))
         = [(''Checkout'', Some ''boom'', 5, 3, 2, 100)]
     \<and> s_failedRuns (fst (executeCollection U ex_executor ex_world ex_faults ?args
           ex_scheduler)) = 0
     \<and> snd (executeCollection U ex_executor ex_world ex_faults_upsert ?args ex_scheduler)
           \<noteq> None
     \<and> s_failedRuns (fst (executeCollection U ex_executor ex_world ex_faults_upsert ?args
           ex_scheduler)) = 1
     \<and> ScanGroups U PerIteration ex_pair_root = Inr ([ex_prod_env], [ex_pair_group])
     \<and> map rowSummary (test_executions (s_db ?run))
         = [(''Checkout'', Some ''boom'', 5, 3, 2, 100)]
     \<and> s_failedRuns ?run = 1
     \<and> s_totalRuns ?run = 1"
    by (simp add: ex_scheduler_def)
qed

text \<open>
  Claim C9 as stated fails: the runner returns a parseable result, the store refuses
  the upsert, and the unit fails without an execution row.
\<close>

theorem executeCollection_refused_write_counterexample:
  "\<forall>U. unitRun U ex_executor ex_world (dispatchArgs [ex_prod_env] ex_prod_group ex_checkout_col)
       = (Some ex_result, Some (NewmanExecutionFailed ''boom''))
     \<and> snd (executeCollection U ex_executor ex_world ex_faults_upsert
               (dispatchArgs [ex_prod_env] ex_prod_group ex_checkout_col) ex_scheduler)
         = Some UpsertCollectionFailed
     \<and> test_executions (s_db (fst (executeCollection U ex_executor ex_world ex_faults_upsert
               (dispatchArgs [ex_prod_env] ex_prod_group ex_checkout_col) ex_scheduler))) = []
     \<and> s_failedRuns (fst (executeCollection U ex_executor ex_world ex_faults_upsert
               (dispatchArgs [ex_prod_env] ex_prod_group ex_checkout_col) ex_scheduler)) = 1"
proof
  fix U
  let ?args = "dispatchArgs [ex_prod_env] ex_prod_group ex_checkout_col"
  obtain k d e c where dk: "dispatchKey U ?args = (k, d, e, c)"
    by (cases "dispatchKey U ?args") auto
  have x: "executeCollection U ex_executor ex_world ex_faults_upsert ?args ex_scheduler
      = (incrementFailedRuns
           (logLine (LogUpsertError (cf_Name (fst ?args)))
              (logLine (LogNewmanError (cf_Name (fst ?args)))
                 (logLine (LogExecuting (cf_Name (fst ?args)) (fst (snd ?args) \<noteq> None))
                    ex_scheduler))),
         Some UpsertCollectionFailed)"
    by (simp add: executeCollection_unfold ex_unitRun Let_def persistResult_def dk
        UpsertCollection_def ex_faults_upsert_def)
  show "unitRun U ex_executor ex_world ?args
       = (Some ex_result, Some (NewmanExecutionFailed ''boom''))
     \<and> snd (executeCollection U ex_executor ex_world ex_faults_upsert ?args ex_scheduler)
         = Some UpsertCollectionFailed
     \<and> test_executions (s_db (fst (executeCollection U ex_executor ex_world ex_faults_upsert
               ?args ex_scheduler))) = []
     \<and> s_failedRuns (fst (executeCollection U ex_executor ex_world ex_faults_upsert
               ?args ex_scheduler)) = 1"
    unfolding x
    by (simp add: ex_unitRun incrementFailedRuns_def logLine_def ex_scheduler_def ex_store_def)
qed

section \<open>The execution a result points to\<close>

lemma fold_collectionResultStep_PerIteration:
  assumes "fold (collectionResultStep PerIteration db allc) execs (h, crs) = (h', crs')"
  shows "h' = h @ execs
         \<and> (\<forall>cr \<in> set crs'. cr \<in> set crs
                \<or> (\<exists>i < length execs. cr_Execution cr = Some (length h + i)
                      \<and> c_ID (cr_Collection cr) = te_CollectionID (execs ! i)))"
  using assms
proof (induction execs arbitrary: h crs)
  case Nil
  then show ?case by simp
next
  case (Cons x execs)
  obtain crs1 where st: "collectionResultStep PerIteration db allc x (h, crs) = (h @ [x], crs1)"
    by (cases "find (\<lambda>col. c_ID col = te_CollectionID x) allc")
       (simp_all add: collectionResultStep_def)
  have new: "\<forall>cr \<in> set crs1. cr \<in> set crs
               \<or> (cr_Execution cr = Some (length h)
                    \<and> c_ID (cr_Collection cr) = te_CollectionID x)"
  proof (cases "find (\<lambda>col. c_ID col = te_CollectionID x) allc")
    case None
    with st show ?thesis by (simp add: collectionResultStep_def)
  next
    case (Some col)
    from find_Some_D[OF Some] have "c_ID col = te_CollectionID x" by simp
    with st Some show ?thesis by (auto simp: collectionResultStep_def)
  qed
  from Cons(2) st have "fold (collectionResultStep PerIteration db allc) execs (h @ [x], crs1)
                          = (h', crs')"
    by simp
  from Cons(1)[OF this] have h': "h' = (h @ [x]) @ execs"
    and ih: "\<forall>cr \<in> set crs'. cr \<in> set crs1
                \<or> (\<exists>i < length execs. cr_Execution cr = Some (length (h @ [x]) + i)
                      \<and> c_ID (cr_Collection cr) = te_CollectionID (execs ! i))"
    by blast+
  have "\<forall>cr \<in> set crs'. cr \<in> set crs
                \<or> (\<exists>i < length (x # execs). cr_Execution cr = Some (length h + i)
                      \<and> c_ID (cr_Collection cr) = te_CollectionID ((x # execs) ! i))"
  proof
    fix cr assume "cr \<in> set crs'"
    with ih consider (old) "cr \<in> set crs1"
      | (later) i where "i < length execs" "cr_Execution cr = Some (length (h @ [x]) + i)"
          "c_ID (cr_Collection cr) = te_CollectionID (execs ! i)"
      by blast
    then show "cr \<in> set crs
                \<or> (\<exists>i < length (x # execs). cr_Execution cr = Some (length h + i)
                      \<and> c_ID (cr_Collection cr) = te_CollectionID ((x # execs) ! i))"
    proof cases
      case old
      with new have "cr \<in> set crs \<or> (cr_Execution cr = Some (length h + 0)
                    \<and> c_ID (cr_Collection cr) = te_CollectionID ((x # execs) ! 0))"
        by auto
      then show ?thesis by (metis length_greater_0_conv list.distinct(1))
    next
      case later
      then have "Suc i < length (x # execs)"
        and "cr_Execution cr = Some (length h + Suc i)"
        and "c_ID (cr_Collection cr) = te_CollectionID ((x # execs) ! Suc i)"
        by simp_all
      then show ?thesis by blast
    qed
  qed
  with h' show ?case by simp
qed

text \<open>
  With one loop variable per iteration, the execution that a reported result points to
  is the execution of the latest-executions query for the result's own collection.
\<close>

lemma buildCollectionResults_PerIteration_execution:
  assumes "cr \<in> set (snd (buildCollectionResults PerIteration db))"
  shows "\<exists>exec \<in> set (GetLatestExecutions db).
           execOf (fst (buildCollectionResults PerIteration db)) cr = Some exec
           \<and> te_CollectionID exec = c_ID (cr_Collection cr)"
proof -
  obtain h' crs' where b: "buildCollectionResults PerIteration db = (h', crs')"
    by (cases "buildCollectionResults PerIteration db")
  from fold_collectionResultStep_PerIteration[OF b[unfolded buildCollectionResults_def]]
  have h': "h' = GetLatestExecutions db"
    and el: "\<forall>cr \<in> set crs'. \<exists>i < length (GetLatestExecutions db).
               cr_Execution cr = Some i
               \<and> c_ID (cr_Collection cr) = te_CollectionID (GetLatestExecutions db ! i)"
    by simp_all
  from assms b el obtain i where i: "i < length (GetLatestExecutions db)"
    "cr_Execution cr = Some i"
    "c_ID (cr_Collection cr) = te_CollectionID (GetLatestExecutions db ! i)"
    by auto
  then have "execOf h' cr = Some (GetLatestExecutions db ! i)"
    by (simp add: execOf_def h')
  with i b show ?thesis by (metis fst_conv nth_mem)
qed

text \<open>
  With one loop variable per loop, every reported result points to the same cell, which
  holds the last execution of the query: on a store with one execution for each of
  two collections, both results show the execution of collection 8.
\<close>

lemma buildCollectionResults_PerLoop_shared:
  "map (execOf (fst (buildCollectionResults PerLoop ex_db2)))
       (snd (buildCollectionResults PerLoop ex_db2))
     = [Some (ex_execution 2 8 20 5 0), Some (ex_execution 2 8 20 5 0)]
   \<and> map (\<lambda>cr. c_ID (cr_Collection cr)) (snd (buildCollectionResults PerLoop ex_db2))
     = [7, 8]"
  by (simp add: execOf_def ex_store_defs query_defs)

end
